theory Spec2Isabelle
  imports Complex_Main
begin

section \<open>Strings and the regular expressions of the plugins\<close>

text \<open>
  A JavaScript string is modelled as a \<^typ>\<open>string\<close>: one \<^typ>\<open>char\<close> per code unit, for the
  code units 0 to 255 (ASCII and Latin-1). Every pattern and literal of the two plugins is
  ASCII.
\<close>

definition is_ws :: "char \<Rightarrow> bool" where
  \<comment> \<open>WhiteSpace and LineTerminator code units below 256: TAB, LF, VT, FF, CR, SP, NBSP.
     This is the class \<open>\s\<close> and what \<open>parseFloat\<close> trims.\<close>
  "is_ws c = (c \<in> set [CHR 0x09, CHR 0x0A, CHR 0x0B, CHR 0x0C, CHR 0x0D, CHR 0x20, CHR 0xA0])"

definition is_digit :: "char \<Rightarrow> bool" where
  "is_digit c = (c \<in> set ''0123456789'')"

definition canon :: "bool \<Rightarrow> char \<Rightarrow> char" where
  \<comment> \<open>Canonicalize of a pattern without the \<open>u\<close> flag: with the \<open>i\<close> flag a code unit is
     compared by its upper case (a-z, and the Latin-1 letters E0-FE but F7, lie 32 above their
     upper case; the upper case of the other code units below 256 is themselves, longer than
     one unit, or a code unit above 255 that no other code unit below 256 maps to).\<close>
  "canon ic c =
     (let n = (of_char c :: int) in
      if ic \<and> ((97 \<le> n \<and> n \<le> 122) \<or> (224 \<le> n \<and> n \<le> 254 \<and> n \<noteq> 247))
      then char_of (n - 32) else c)"

datatype cset =
    Only "char list"      \<comment> \<open>\<open>[abc]\<close>, or one pattern character\<close>
  | Except "char list"    \<comment> \<open>\<open>[^abc]\<close>\<close>
  | AnyChar               \<comment> \<open>\<open>[\s\S]\<close>\<close>
  | Space                 \<comment> \<open>\<open>\s\<close>\<close>

fun in_cset :: "bool \<Rightarrow> cset \<Rightarrow> char \<Rightarrow> bool" where
  "in_cset ic (Only cs) c = (canon ic c \<in> set (map (canon ic) cs))"
| "in_cset ic (Except cs) c = (canon ic c \<notin> set (map (canon ic) cs))"
| "in_cset ic AnyChar c = True"
| "in_cset ic Space c = is_ws c"

text \<open>
  The pattern syntax the repository uses: literal text, a quantified character class
  (\<open>*\<close>, \<open>+\<close>, \<open>*?\<close>), concatenation, a disjunction and capturing groups. No group of the
  repository's patterns stands inside a disjunction, a quantifier or another group, so the
  captures are kept as the list of the groups' texts from left to right.
\<close>

datatype rx =
    Lit string             \<comment> \<open>pattern characters\<close>
  | Rep cset bool nat      \<comment> \<open>\<open>Rep cs greedy n\<close>: the class \<open>cs\<close>, at least \<open>n\<close> times\<close>
  | Cat rx rx
  | Alt rx rx
  | Grp rx

definition lit_prefix :: "bool \<Rightarrow> string \<Rightarrow> string \<Rightarrow> bool" where
  "lit_prefix ic l s = (length l \<le> length s \<and> map (canon ic) (take (length l) s) = map (canon ic) l)"

definition is_prefix :: "string \<Rightarrow> string \<Rightarrow> bool" where
  "is_prefix p s = (take (length p) s = p)"

text \<open>
  The backtracking matcher, as the list of its successes in the order backtracking finds
  them: each success is the rest of the input and the captures. A greedy quantifier tries the
  longest run first, a lazy one the shortest; a disjunction its left alternative first.
\<close>

fun rx_match :: "bool \<Rightarrow> rx \<Rightarrow> string \<Rightarrow> string list \<Rightarrow> (string \<times> string list) list" where
  "rx_match ic (Lit l) s caps = (if lit_prefix ic l s then [(drop (length l) s, caps)] else [])"
| "rx_match ic (Rep cs greedy n) s caps =
     (let k = length (takeWhile (in_cset ic cs) s);
          ns = filter (\<lambda>j. n \<le> j) [0..<Suc k]
      in map (\<lambda>j. (drop j s, caps)) (if greedy then rev ns else ns))"
| "rx_match ic (Cat a b) s caps =
     concat (map (\<lambda>(s', caps'). rx_match ic b s' caps') (rx_match ic a s caps))"
| "rx_match ic (Alt a b) s caps = rx_match ic a s caps @ rx_match ic b s caps"
| "rx_match ic (Grp a) s caps =
     map (\<lambda>(s', caps'). (s', caps' @ [take (length s - length s') s])) (rx_match ic a s caps)"

text \<open>
  \<open>RegExpBuiltinExec\<close> from the start of \<open>s\<close>: the leftmost start at which the pattern matches.
  The result is the text before the match, the match, its captures and the text after it.
\<close>

type_synonym rx_result = "string \<times> string \<times> string list \<times> string"

fun rx_search :: "bool \<Rightarrow> rx \<Rightarrow> string \<Rightarrow> string \<Rightarrow> rx_result option" where
  "rx_search ic r pre [] =
     (case rx_match ic r [] [] of
        (rest, caps) # _ \<Rightarrow> Some (pre, [], caps, rest)
      | [] \<Rightarrow> None)"
| "rx_search ic r pre (c # cs) =
     (case rx_match ic r (c # cs) [] of
        (rest, caps) # _ \<Rightarrow> Some (pre, take (length (c # cs) - length rest) (c # cs), caps, rest)
      | [] \<Rightarrow> rx_search ic r (pre @ [c]) cs)"

definition rx_exec :: "bool \<Rightarrow> rx \<Rightarrow> string \<Rightarrow> rx_result option" where
  "rx_exec ic r s = rx_search ic r [] s"

text \<open>
  \<open>GetSubstitution\<close>: the replacement text of \<open>String.prototype.replace\<close> for a replacement
  string. \<open>$$\<close> is a dollar, \<open>$&\<close> the match, \<open>$`\<close> and \<open>$'\<close> the text before and after it,
  \<open>$n\<close> and \<open>$nn\<close> a capture; a two-digit index beyond the number of captures is read as one
  digit followed by a literal digit, and any other \<open>$\<close> stands for itself.
\<close>

definition digit_val :: "char \<Rightarrow> nat" where
  "digit_val c = of_char c - 48"

fun expand_template :: "string \<Rightarrow> string \<Rightarrow> string \<Rightarrow> string list \<Rightarrow> string \<Rightarrow> string" where
  "expand_template [] b m caps a = []"
| "expand_template [c] b m caps a = [c]"
| "expand_template (c # d # r) b m caps a =
     (if c \<noteq> CHR ''$'' then c # expand_template (d # r) b m caps a
      else if d = CHR ''$'' then CHR ''$'' # expand_template r b m caps a
      else if d = CHR ''&'' then m @ expand_template r b m caps a
      else if d = CHR 0x60 then b @ expand_template r b m caps a
      else if d = CHR 0x27 then a @ expand_template r b m caps a
      else if is_digit d then
        (case r of
           e # r' \<Rightarrow>
             if is_digit e \<and> 10 * digit_val d + digit_val e \<le> length caps then
               (if 1 \<le> 10 * digit_val d + digit_val e
                then caps ! (10 * digit_val d + digit_val e - 1) @ expand_template r' b m caps a
                else c # d # e # expand_template r' b m caps a)
             else if 1 \<le> digit_val d \<and> digit_val d \<le> length caps
               then caps ! (digit_val d - 1) @ expand_template r b m caps a
               else c # d # expand_template r b m caps a
         | [] \<Rightarrow>
             if 1 \<le> digit_val d \<and> digit_val d \<le> length caps
             then caps ! (digit_val d - 1) @ expand_template r b m caps a
             else c # d # expand_template r b m caps a)
      else c # expand_template (d # r) b m caps a)"

text \<open>\<open>s.replace(r, t)\<close> for a pattern without the \<open>g\<close> flag and a replacement string: the
  first match only.\<close>

definition rx_replace :: "bool \<Rightarrow> rx \<Rightarrow> string \<Rightarrow> string \<Rightarrow> string" where
  "rx_replace ic r t s =
     (case rx_exec ic r s of
        None \<Rightarrow> s
      | Some (b, m, caps, a) \<Rightarrow> b @ expand_template t b m caps a @ a)"

lemma rx_match_suffix:
  "(rest, caps') \<in> set (rx_match ic r s caps) \<Longrightarrow> \<exists>m. s = m @ rest"
proof (induction r arbitrary: s caps rest caps')
  case (Lit l)
  then show ?case
    by (auto split: if_splits intro: exI[of _ "take (length l) s"])
next
  case (Rep cs greedy n)
  then show ?case
    by (auto simp: Let_def split: if_splits intro: append_take_drop_id[symmetric])
next
  case (Cat a b)
  from Cat.prems obtain s1 c1 where
    a: "(s1, c1) \<in> set (rx_match ic a s caps)" and b: "(rest, caps') \<in> set (rx_match ic b s1 c1)"
    by auto
  from Cat.IH(1)[OF a] obtain m1 where "s = m1 @ s1" by blast
  moreover from Cat.IH(2)[OF b] obtain m2 where "s1 = m2 @ rest" by blast
  ultimately show ?case by auto
next
  case (Alt a b)
  then show ?case by auto
next
  case (Grp a)
  then show ?case by auto
qed

lemma rx_match_length:
  "(rest, caps') \<in> set (rx_match ic r s caps) \<Longrightarrow> length rest \<le> length s"
  using rx_match_suffix by fastforce

lemma rx_search_sound:
  "rx_search ic r pre s = Some (b, m, caps, a) \<Longrightarrow> pre @ s = b @ m @ a"
proof (induction s arbitrary: pre)
  case Nil
  then obtain xs where hit: "rx_match ic r [] [] = (a, caps) # xs" and bm: "b = pre" "m = []"
    by (auto split: list.splits)
  from hit have "(a, caps) \<in> set (rx_match ic r [] [])" by simp
  from rx_match_suffix[OF this] have "a = []" by simp
  with bm show ?case by simp
next
  case (Cons c cs)
  show ?case
  proof (cases "rx_match ic r (c # cs) []")
    case Nil
    with Cons.prems have "rx_search ic r (pre @ [c]) cs = Some (b, m, caps, a)" by simp
    from Cons.IH[OF this] show ?thesis by simp
  next
    case hit: (Cons x xs)
    obtain rest cp where x: "x = (rest, cp)" by (cases x)
    with hit have "(rest, cp) \<in> set (rx_match ic r (c # cs) [])" by simp
    from rx_match_suffix[OF this] obtain mm where mm: "c # cs = mm @ rest" by blast
    then have tk: "take (length (c # cs) - length rest) (c # cs) = mm" by simp
    from hit x Cons.prems
    have "b = pre \<and> m = take (length (c # cs) - length rest) (c # cs) \<and> a = rest"
      by auto
    with tk mm show ?thesis by simp
  qed
qed

lemma rx_exec_sound: "rx_exec ic r s = Some (b, m, caps, a) \<Longrightarrow> s = b @ m @ a"
  using rx_search_sound[of ic r "[]" s] by (simp add: rx_exec_def)

text \<open>
  \<open>s.replace(r, t)\<close> for a pattern with the \<open>g\<close> flag and a replacement string: every match from left to right, the
  search resuming where the last match ended (one code unit further after an empty match).
  \<open>past\<close> is the text already passed, which \<open>$`\<close> can read.
\<close>

function rx_replace_from :: "bool \<Rightarrow> rx \<Rightarrow> string \<Rightarrow> string \<Rightarrow> string \<Rightarrow> string" where
  "rx_replace_from ic r t past s =
     (case rx_exec ic r s of
        None \<Rightarrow> s
      | Some (b, m, caps, a) \<Rightarrow>
          b @ expand_template t (past @ b) m caps a @
          (if m \<noteq> [] then rx_replace_from ic r t (past @ b @ m) a
           else case a of
                  [] \<Rightarrow> []
                | c # cs \<Rightarrow> c # rx_replace_from ic r t (past @ b @ [c]) cs))"
  by pat_completeness auto
termination
proof (relation "measure (\<lambda>(ic, r, t, past, s). length s)", goal_cases)
  case 1
  show ?case by simp
next
  case (2 ic r t past s x2 b x2a m x2b caps a)
  then have "rx_exec ic r s = Some (b, m, caps, a)" by auto
  from rx_exec_sound[OF this] 2 show ?case by simp
next
  case (3 ic r t past s x2 b x2a m x2b caps a c cs)
  then have "rx_exec ic r s = Some (b, m, caps, a)" by auto
  from rx_exec_sound[OF this] 3 show ?case by simp
qed

declare rx_replace_from.simps [simp del]

definition rx_replace_all :: "bool \<Rightarrow> rx \<Rightarrow> string \<Rightarrow> string \<Rightarrow> string" where
  "rx_replace_all ic r t s = rx_replace_from ic r t [] s"

text \<open>
  \<open>s.replace(r, f)\<close> for a pattern with the \<open>g\<close> flag and a replacer function, called with
  the match and its captures (the replacer of the repository reads the match only). What the
  function throws, \<open>replace\<close> throws.
\<close>

datatype error = TypeError

function rx_replace_fn :: "bool \<Rightarrow> rx \<Rightarrow> (string \<Rightarrow> string list \<Rightarrow> error + string) \<Rightarrow> string \<Rightarrow> error + string" where
  "rx_replace_fn ic r f s =
     (case rx_exec ic r s of
        None \<Rightarrow> Inr s
      | Some (b, m, caps, a) \<Rightarrow>
          (case f m caps of
             Inl e \<Rightarrow> Inl e
           | Inr t \<Rightarrow>
               (case (if m \<noteq> [] then rx_replace_fn ic r f a
                      else case a of
                             [] \<Rightarrow> Inr []
                           | c # cs \<Rightarrow> map_sum id ((#) c) (rx_replace_fn ic r f cs)) of
                  Inl e \<Rightarrow> Inl e
                | Inr rest \<Rightarrow> Inr (b @ t @ rest))))"
  by pat_completeness auto
termination
proof (relation "measure (\<lambda>(ic, r, f, s). length s)", goal_cases)
  case 1
  show ?case by simp
next
  case (2 ic r f s x2 b x2a m x2b caps a t)
  then have "rx_exec ic r s = Some (b, m, caps, a)" by auto
  from rx_exec_sound[OF this] 2 show ?case by simp
next
  case (3 ic r f s x2 b x2a m x2b caps a t c cs)
  then have "rx_exec ic r s = Some (b, m, caps, a)" by auto
  from rx_exec_sound[OF this] 3 show ?case by simp
qed

declare rx_replace_fn.simps [simp del]

text \<open>\<open>[...s.matchAll(r)]\<close> for a pattern with the \<open>g\<close> flag: every match with its captures.\<close>

function rx_match_all :: "bool \<Rightarrow> rx \<Rightarrow> string \<Rightarrow> (string \<times> string list) list" where
  "rx_match_all ic r s =
     (case rx_exec ic r s of
        None \<Rightarrow> []
      | Some (b, m, caps, a) \<Rightarrow>
          (m, caps) #
          (if m \<noteq> [] then rx_match_all ic r a
           else case a of [] \<Rightarrow> [] | c # cs \<Rightarrow> rx_match_all ic r cs))"
  by pat_completeness auto
termination
proof (relation "measure (\<lambda>(ic, r, s). length s)", goal_cases)
  case 1
  show ?case by simp
next
  case (2 ic r s x2 b x2a m x2b caps a)
  then have "rx_exec ic r s = Some (b, m, caps, a)" by auto
  from rx_exec_sound[OF this] 2 show ?case by simp
next
  case (3 ic r s x2 b x2a m x2b caps a c cs)
  then have "rx_exec ic r s = Some (b, m, caps, a)" by auto
  from rx_exec_sound[OF this] 3 show ?case by simp
qed

declare rx_match_all.simps [simp del]

text \<open>
  \<open>match[i]\<close> for \<open>i\<close> from 1: the text of a group, \<open>undefined\<close> (here \<open>None\<close>) when the
  match has no such group.
\<close>

definition nth_cap :: "string list \<Rightarrow> nat \<Rightarrow> string option" where
  "nth_cap caps i = (if 1 \<le> i \<and> i \<le> length caps then Some (caps ! (i - 1)) else None)"

subsection \<open>A pattern of one character, replaced everywhere\<close>

lemma canon_False [simp]: "canon False c = c"
  by (simp add: canon_def)

lemma lit_prefix_char: "lit_prefix False [c] s = (case s of [] \<Rightarrow> False | x # xs \<Rightarrow> x = c)"
  by (cases s) (auto simp: lit_prefix_def)

lemma rx_search_char_none:
  "c \<notin> set s \<Longrightarrow> rx_search False (Lit [c]) pre s = None"
  by (induction s arbitrary: pre) (auto simp: lit_prefix_char)

lemma rx_search_char_first:
  "c \<notin> set p \<Longrightarrow> rx_search False (Lit [c]) pre (p @ c # rest) = Some (pre @ p, [c], [], rest)"
  by (induction p arbitrary: pre) (auto simp: lit_prefix_char)

lemma expand_template_plain:
  "CHR ''$'' \<notin> set t \<Longrightarrow> expand_template t b m caps a = t"
proof (induction t)
  case Nil
  show ?case by simp
next
  case (Cons c t)
  then have c: "c \<noteq> CHR ''$''" and IH: "expand_template t b m caps a = t" by auto
  show ?case by (cases t) (use c IH in simp_all)
qed

lemma concat_map_other:
  "c \<notin> set s \<Longrightarrow> concat (map (\<lambda>x. if x = c then t else [x]) s) = s"
  by (induction s) auto

lemma rx_replace_from_char:
  "CHR ''$'' \<notin> set t \<Longrightarrow>
   rx_replace_from False (Lit [c]) t past s = concat (map (\<lambda>x. if x = c then t else [x]) s)"
proof (induction s arbitrary: past rule: length_induct)
  case (1 s)
  show ?case
  proof (cases "c \<in> set s")
    case False
    then have "rx_exec False (Lit [c]) s = None"
      by (simp add: rx_exec_def rx_search_char_none)
    with False show ?thesis
      by (subst rx_replace_from.simps) (simp add: concat_map_other)
  next
    case True
    then obtain pre rest where s: "s = pre @ c # rest" and pre: "c \<notin> set pre"
      by (auto dest: split_list_first)
    have "length rest < length s" using s by simp
    with 1 have IH: "rx_replace_from False (Lit [c]) t (past @ pre @ [c]) rest
        = concat (map (\<lambda>x. if x = c then t else [x]) rest)" by blast
    have ex: "rx_exec False (Lit [c]) s = Some (pre, [c], [], rest)"
      using pre by (simp add: rx_exec_def s rx_search_char_first)
    have "rx_replace_from False (Lit [c]) t past s
        = pre @ t @ rx_replace_from False (Lit [c]) t (past @ pre @ [c]) rest"
      using 1(2) by (subst rx_replace_from.simps) (simp add: ex expand_template_plain)
    with IH pre show ?thesis by (simp add: s concat_map_other)
  qed
qed

lemma rx_replace_all_char:
  "CHR ''$'' \<notin> set t \<Longrightarrow>
   rx_replace_all False (Lit [c]) t s = concat (map (\<lambda>x. if x = c then t else [x]) s)"
  by (simp add: rx_replace_all_def rx_replace_from_char)

subsection \<open>Facts about the matcher\<close>

lemma rx_match_caps:
  "rx_match ic r s caps = map (\<lambda>(rest, cs). (rest, caps @ cs)) (rx_match ic r s [])"
proof (induction r arbitrary: s caps)
  case (Lit l)
  show ?case by simp
next
  case (Rep cs greedy n)
  show ?case by (simp add: Let_def comp_def)
next
  case (Cat a b)
  have b: "\<And>s' c'. rx_match ic b s' c' = map (\<lambda>(rest, cs). (rest, c' @ cs)) (rx_match ic b s' [])"
    by (rule Cat.IH(2))
  have step: "concat (map (\<lambda>(x, y). rx_match ic b x y) (map (\<lambda>(rest, cs). (rest, caps @ cs)) xs))
      = map (\<lambda>(rest, cs). (rest, caps @ cs)) (concat (map (\<lambda>(x, y). rx_match ic b x y) xs))" for xs
  proof (induction xs)
    case Nil
    show ?case by simp
  next
    case (Cons xy xs)
    obtain x y where xy: "xy = (x, y)" by (cases xy)
    have "rx_match ic b x (caps @ y) = map (\<lambda>(rest, cs). (rest, caps @ cs)) (rx_match ic b x y)"
      by (subst b[of x "caps @ y"], subst b[of x y]) (simp add: comp_def split_def)
    with Cons xy show ?case by simp
  qed
  show ?case
    apply (simp only: rx_match.simps)
    apply (subst Cat.IH(1))
    apply (rule step)
    done
next
  case (Alt a b)
  show ?case
    apply (simp only: rx_match.simps)
    apply (subst Alt.IH(1))
    apply (subst Alt.IH(2))
    apply simp
    done
next
  case (Grp a)
  show ?case
    apply (simp only: rx_match.simps)
    apply (subst Grp.IH)
    apply (simp add: comp_def split_def)
    done
qed

lemma rx_search_none:
  "(\<And>p t. s = p @ t \<Longrightarrow> rx_match ic r t [] = []) \<Longrightarrow> rx_search ic r pre s = None"
proof (induction s arbitrary: pre)
  case Nil
  then show ?case by simp
next
  case (Cons c cs)
  have "rx_match ic r (c # cs) [] = []" by (rule Cons.prems[of "[]"]) simp
  moreover have "rx_search ic r (pre @ [c]) cs = None"
  proof (rule Cons.IH)
    fix p t assume "cs = p @ t"
    then show "rx_match ic r t [] = []" by (intro Cons.prems[of "c # p"]) simp
  qed
  ultimately show ?case by simp
qed


lemma rx_search_some:
  "rx_search ic r pre s = Some (b, m, caps, a) \<Longrightarrow>
   \<exists>p t xs. s = p @ t \<and> b = pre @ p \<and> rx_match ic r t [] = (a, caps) # xs \<and> t = m @ a \<and>
     (\<forall>p' t'. p = p' @ t' \<and> t' \<noteq> [] \<longrightarrow> rx_match ic r (t' @ t) [] = [])"
proof (induction s arbitrary: pre)
  case Nil
  then obtain xs where hit: "rx_match ic r [] [] = (a, caps) # xs" and bm: "b = pre" "m = []"
    by (auto split: list.splits)
  from hit have "(a, caps) \<in> set (rx_match ic r [] [])" by simp
  from rx_match_suffix[OF this] have "a = []" by simp
  with bm hit show ?case by simp
next
  case (Cons c cs)
  show ?case
  proof (cases "rx_match ic r (c # cs) []")
    case Nil
    with Cons.prems have "rx_search ic r (pre @ [c]) cs = Some (b, m, caps, a)" by simp
    from Cons.IH[OF this] obtain p t xs where
      *: "cs = p @ t" "b = (pre @ [c]) @ p" "rx_match ic r t [] = (a, caps) # xs" "t = m @ a"
      "\<forall>p' t'. p = p' @ t' \<and> t' \<noteq> [] \<longrightarrow> rx_match ic r (t' @ t) [] = []" by blast
    have "\<forall>p' t'. c # p = p' @ t' \<and> t' \<noteq> [] \<longrightarrow> rx_match ic r (t' @ t) [] = []"
    proof (intro allI impI)
      fix p' t' assume h: "c # p = p' @ t' \<and> t' \<noteq> []"
      show "rx_match ic r (t' @ t) [] = []"
      proof (cases p')
        case Nil
        with h have "t' = c # p" by simp
        with Nil *(1) \<open>rx_match ic r (c # cs) [] = []\<close> show ?thesis by simp
      next
        case (Cons x p'')
        with h have "p = p'' @ t'" by simp
        with h *(5) show ?thesis by blast
      qed
    qed
    with * show ?thesis
      by (intro exI[of _ "c # p"] exI[of _ t] exI[of _ xs]) simp
  next
    case hit: (Cons x xs)
    obtain rest cp where x: "x = (rest, cp)" by (cases x)
    with hit have "(rest, cp) \<in> set (rx_match ic r (c # cs) [])" by simp
    from rx_match_suffix[OF this] obtain mm where mm: "c # cs = mm @ rest" by blast
    then have tk: "take (length (c # cs) - length rest) (c # cs) = mm" by simp
    from hit x Cons.prems
    have "b = pre \<and> m = take (length (c # cs) - length rest) (c # cs) \<and> a = rest \<and> caps = cp"
      by auto
    with tk mm hit x show ?thesis
      by (intro exI[of _ "[]"] exI[of _ "c # cs"] exI[of _ xs]) simp
  qed
qed

lemma rx_search_map:
  assumes "\<And>t. rx_match ic r' t [] = map (\<lambda>(rest, cs). (rest, g cs)) (rx_match ic r t [])"
  shows "rx_search ic r' pre s = map_option (\<lambda>(b, m, cs, a). (b, m, g cs, a)) (rx_search ic r pre s)"
proof (induction s arbitrary: pre)
  case Nil
  show ?case by (simp add: assms split: list.split)
next
  case (Cons c cs)
  show ?case by (simp add: assms Cons.IH split: list.split)
qed

subsection \<open>A character class up to its delimiter\<close>

text \<open>
  \<open>[^c]*c\<close> and \<open>[^c]+c\<close> match in one way only: the run of characters other than \<open>c\<close>, then
  \<open>c\<close>. Backtracking into the run finds no other \<open>c\<close>.
\<close>

lemma canon_False_id: "canon False = (\<lambda>c. c)"
  by (rule ext) simp

lemma lit_prefix_False: "lit_prefix False l s = (take (length l) s = l)"
proof
  assume "lit_prefix False l s"
  then show "take (length l) s = l" by (simp add: lit_prefix_def canon_False_id)
next
  assume h: "take (length l) s = l"
  then have "length (take (length l) s) = length l" by simp
  then have "length l \<le> length s" by simp
  with h show "lit_prefix False l s" by (simp add: lit_prefix_def canon_False_id)
qed

lemma concat_map_Nil: "(\<And>x. x \<in> set xs \<Longrightarrow> f x = []) \<Longrightarrow> concat (map f xs) = []"
  by (induction xs) auto

lemma starts_with_char: "lit_prefix False [c] s = (s \<noteq> [] \<and> hd s = c)"
  by (cases s) (simp_all add: lit_prefix_False)

lemma until_char:
  "concat (map (\<lambda>j. if lit_prefix False [c] (drop j u) then [g j] else [])
      (rev (filter (\<lambda>j. n \<le> j) [0..<Suc (length (takeWhile (\<lambda>x. x \<noteq> c) u))])))
   = (if n \<le> length (takeWhile (\<lambda>x. x \<noteq> c) u) \<and> length (takeWhile (\<lambda>x. x \<noteq> c) u) < length u
      then [g (length (takeWhile (\<lambda>x. x \<noteq> c) u))] else [])"
proof -
  define k where "k = length (takeWhile (\<lambda>x. x \<noteq> c) u)"
  let ?f = "\<lambda>j. if lit_prefix False [c] (drop j u) then [g j] else []"
  have kle: "k \<le> length u" unfolding k_def by (rule length_takeWhile_le)
  have before: "?f j = []" if "j < k" for j
  proof -
    from that have "takeWhile (\<lambda>x. x \<noteq> c) u ! j = u ! j"
      unfolding k_def by (rule takeWhile_nth)
    moreover from that have "takeWhile (\<lambda>x. x \<noteq> c) u ! j \<in> set (takeWhile (\<lambda>x. x \<noteq> c) u)"
      unfolding k_def by (rule nth_mem)
    ultimately have "u ! j \<noteq> c" by (auto dest: set_takeWhileD)
    moreover from that kle have "j < length u" by simp
    ultimately show ?thesis by (simp add: starts_with_char hd_drop_conv_nth)
  qed
  have at: "lit_prefix False [c] (drop k u) = (k < length u)"
  proof (cases "k < length u")
    case True
    then have "\<not> (u ! k \<noteq> c)" unfolding k_def by (rule nth_length_takeWhile)
    with True show ?thesis by (simp add: starts_with_char hd_drop_conv_nth)
  next
    case False
    then show ?thesis by (simp add: starts_with_char)
  qed
  have rest: "concat (map ?f (rev (filter (\<lambda>j. n \<le> j) [0..<k]))) = []"
    by (rule concat_map_Nil) (use before in auto)
  have "concat (map ?f (rev (filter (\<lambda>j. n \<le> j) [0..<Suc k])))
      = (if n \<le> k then ?f k else []) @ concat (map ?f (rev (filter (\<lambda>j. n \<le> j) [0..<k])))"
    by simp
  also have "\<dots> = (if n \<le> k then ?f k else [])"
    by (simp only: rest append_Nil2)
  also have "\<dots> = (if n \<le> k \<and> k < length u then [g k] else [])"
    by (simp only: at) simp
  finally have "concat (map ?f (rev (filter (\<lambda>j. n \<le> j) [0..<Suc k])))
      = (if n \<le> k \<and> k < length u then [g k] else [])" .
  then show ?thesis unfolding k_def .
qed

lemma in_cset_Except1: "in_cset False (Except [c]) = (\<lambda>x. x \<noteq> c)"
  by (rule ext) simp

lemma rx_match_until:
  "rx_match False (Cat (Rep (Except [c]) True n) (Lit [c])) u caps =
     (let k = length (takeWhile (\<lambda>x. x \<noteq> c) u)
      in if n \<le> k \<and> k < length u then [(drop (Suc k) u, caps)] else [])"
proof -
  have "rx_match False (Cat (Rep (Except [c]) True n) (Lit [c])) u caps =
      concat (map (\<lambda>j. if lit_prefix False [c] (drop j u) then [(drop (Suc j) u, caps)] else [])
        (rev (filter (\<lambda>j. n \<le> j) [0..<Suc (length (takeWhile (\<lambda>x. x \<noteq> c) u))])))"
    by (simp add: in_cset_Except1 Let_def comp_def del: upt_Suc in_cset.simps cong: if_cong)
  then show ?thesis by (simp only: until_char Let_def)
qed

lemma rx_match_until_grp:
  "rx_match False (Cat (Grp (Rep (Except [c]) True n)) (Lit [c])) u caps =
     (let k = length (takeWhile (\<lambda>x. x \<noteq> c) u)
      in if n \<le> k \<and> k < length u then [(drop (Suc k) u, caps @ [take k u])] else [])"
proof -
  have "rx_match False (Cat (Grp (Rep (Except [c]) True n)) (Lit [c])) u caps =
      concat (map (\<lambda>j. if lit_prefix False [c] (drop j u)
                        then [(drop (Suc j) u, caps @ [take (length u - (length u - j)) u])] else [])
        (rev (filter (\<lambda>j. n \<le> j) [0..<Suc (length (takeWhile (\<lambda>x. x \<noteq> c) u))])))"
    by (simp add: in_cset_Except1 Let_def comp_def del: upt_Suc in_cset.simps cong: if_cong)
  also have "\<dots> = (let k = length (takeWhile (\<lambda>x. x \<noteq> c) u)
      in if n \<le> k \<and> k < length u then [(drop (Suc k) u, caps @ [take (length u - (length u - k)) u])] else [])"
    by (simp only: until_char Let_def)
  also have "\<dots> = (let k = length (takeWhile (\<lambda>x. x \<noteq> c) u)
      in if n \<le> k \<and> k < length u then [(drop (Suc k) u, caps @ [take k u])] else [])"
    by (simp add: Let_def)
  finally show ?thesis .
qed

lemma rx_match_attr_grp:
  "rx_match False (Cat (Lit l) (Cat (Grp (Rep (Except [c]) True n)) (Lit [c]))) t caps =
     (if take (length l) t = l then
        (let k = length (takeWhile (\<lambda>x. x \<noteq> c) (drop (length l) t))
         in if n \<le> k \<and> k < length (drop (length l) t)
            then [(drop (Suc k) (drop (length l) t), caps @ [take k (drop (length l) t)])] else [])
      else [])"
  by (subst rx_match.simps(3)) (simp add: rx_match_until_grp lit_prefix_False del: rx_match.simps(2,3,4,5))

lemma rx_match_attr:
  "rx_match False (Cat (Lit l) (Cat (Rep (Except [c]) True n) (Lit [c]))) t caps =
     (if take (length l) t = l then
        (let k = length (takeWhile (\<lambda>x. x \<noteq> c) (drop (length l) t))
         in if n \<le> k \<and> k < length (drop (length l) t)
            then [(drop (Suc k) (drop (length l) t), caps)] else [])
      else [])"
  by (subst rx_match.simps(3)) (simp add: rx_match_until lit_prefix_False del: rx_match.simps(2,3,4,5))

lemma rx_exec_attr:
  "rx_exec False (Cat (Lit l) (Cat (Rep (Except [c]) True n) (Lit [c]))) s =
     map_option (\<lambda>(b, m, cs, a). (b, m, [], a))
       (rx_exec False (Cat (Lit l) (Cat (Grp (Rep (Except [c]) True n)) (Lit [c]))) s)"
  unfolding rx_exec_def
  by (rule rx_search_map) (simp add: rx_match_attr rx_match_attr_grp Let_def del: rx_match.simps)

lemma rx_exec_attr_shape:
  assumes "rx_exec False (Cat (Lit l) (Cat (Grp (Rep (Except [c]) True n)) (Lit [c]))) s
             = Some (b, m, caps, a)"
  shows "\<exists>v. caps = [v] \<and> n \<le> length v \<and> c \<notin> set v \<and> m = l @ v @ [c] \<and> s = b @ l @ v @ [c] @ a"
proof -
  let ?r = "Cat (Lit l) (Cat (Grp (Rep (Except [c]) True n)) (Lit [c]))"
  from assms obtain p t xs where
    s: "s = p @ t" and b: "b = p" and hit: "rx_match False ?r t [] = (a, caps) # xs"
    and t: "t = m @ a"
    unfolding rx_exec_def by (auto dest!: rx_search_some)
  define u where "u = drop (length l) t"
  define k where "k = length (takeWhile (\<lambda>x. x \<noteq> c) u)"
  from hit have pre: "take (length l) t = l" and k1: "n \<le> k" and ku: "k < length u"
    and a: "a = drop (Suc k) u" and caps: "caps = [take k u]"
    unfolding u_def k_def
    by (auto simp add: rx_match_attr_grp Let_def simp del: rx_match.simps split: if_splits)
  have v: "take k u = takeWhile (\<lambda>x. x \<noteq> c) u"
    unfolding k_def by (rule takeWhile_eq_take[symmetric])
  have "\<not> (u ! k \<noteq> c)" using ku unfolding k_def by (rule nth_length_takeWhile)
  then have uk: "u ! k = c" by simp
  have "u = take k u @ drop k u" by simp
  also have "drop k u = u ! k # drop (Suc k) u" using ku by (simp add: Cons_nth_drop_Suc)
  finally have u: "u = take k u @ [c] @ a" using uk a by simp
  have "t = take (length l) t @ drop (length l) t" by simp
  with pre u have t': "t = l @ take k u @ [c] @ a" unfolding u_def by metis
  with t have "m @ a = (l @ take k u @ [c]) @ a" by simp
  then have m: "m = l @ take k u @ [c]" by (simp only: append_same_eq)
  have ne: "n \<le> length (take k u)" using k1 ku by auto
  have nq: "c \<notin> set (take k u)" unfolding v by (auto dest: set_takeWhileD)
  from caps ne nq m s b t' show ?thesis by auto
qed

lemma rx_exec_attr_none:
  assumes "\<And>p q. s \<noteq> p @ l @ q"
  shows "rx_exec False (Cat (Lit l) (Cat (Grp (Rep (Except [c]) True n)) (Lit [c]))) s = None"
  unfolding rx_exec_def
proof (rule rx_search_none)
  fix p t assume s: "s = p @ t"
  show "rx_match False (Cat (Lit l) (Cat (Grp (Rep (Except [c]) True n)) (Lit [c]))) t [] = []"
  proof (cases "take (length l) t = l")
    case True
    have "t = take (length l) t @ drop (length l) t" by simp
    with True s have "s = p @ l @ drop (length l) t" by metis
    with assms show ?thesis by blast
  next
    case False
    then show ?thesis by (simp add: rx_match_attr_grp del: rx_match.simps)
  qed
qed

subsection \<open>Occurrences of a text\<close>

fun occurs :: "string \<Rightarrow> string \<Rightarrow> bool" where
  "occurs l [] = (l = [])"
| "occurs l (c # cs) = (is_prefix l (c # cs) \<or> occurs l cs)"

lemma occurs_iff: "occurs l s \<longleftrightarrow> (\<exists>p q. s = p @ l @ q)"
proof (induction s)
  case Nil
  show ?case by auto
next
  case (Cons c cs)
  show ?case
  proof
    assume "occurs l (c # cs)"
    then consider "is_prefix l (c # cs)" | "occurs l cs" by auto
    then show "\<exists>p q. c # cs = p @ l @ q"
    proof cases
      case 1
      then have tk: "take (length l) (c # cs) = l" by (simp only: is_prefix_def)
      have "take (length l) (c # cs) @ drop (length l) (c # cs) = c # cs"
        by (rule append_take_drop_id)
      then have "l @ drop (length l) (c # cs) = c # cs" by (simp only: tk)
      then have "c # cs = [] @ l @ drop (length l) (c # cs)" by simp
      then show ?thesis by blast
    next
      case 2
      with Cons obtain p q where "cs = p @ l @ q" by blast
      then have "c # cs = (c # p) @ l @ q" by simp
      then show ?thesis by blast
    qed
  next
    assume "\<exists>p q. c # cs = p @ l @ q"
    then obtain p q where pq: "c # cs = p @ l @ q" by blast
    show "occurs l (c # cs)"
    proof (cases p)
      case Nil
      with pq have "is_prefix l (c # cs)" by (simp add: is_prefix_def)
      then show ?thesis by simp
    next
      case (Cons x p')
      with pq have "cs = p' @ l @ q" by simp
      with Cons.IH show ?thesis by auto
    qed
  qed
qed

section \<open>Numbers\<close>

text \<open>
  A Number is \<open>NaN\<close>, an infinity, or a finite double, kept as its exact rational value. The
  two zeros are one value here: the plugins print their numbers (\<open>String(-0)\<close> is \<open>0\<close>, and
  \<open>toFixed\<close> prints no sign for it), compare them with \<open>>\<close>, and pass them to \<open>Math.min\<close>,
  \<open>Math.max\<close>, \<open>+\<close>, \<open>-\<close> and \<open>*\<close>, and nothing they print tells \<open>-0\<close> from \<open>0\<close>.
\<close>

datatype jsnum = NaN | PosInf | NegInf | Fin rat

function ipow :: "rat \<Rightarrow> int \<Rightarrow> rat" where
  \<comment> \<open>\<open>b\<close> to an integer power, by squaring\<close>
  "ipow b k =
     (if k < 0 then 1 / ipow b (- k)
      else if k = 0 then 1
      else if even k then ipow (b * b) (k div 2)
      else b * ipow (b * b) (k div 2))"
  by pat_completeness auto
termination
  by (relation "measure (\<lambda>(b, k). if k < 0 then nat (- k) + 1 else nat k)") auto

declare ipow.simps [simp del]

function numlen :: "int \<Rightarrow> int \<Rightarrow> int" where
  \<comment> \<open>the number of digits of \<open>x\<close> in base \<open>b\<close>, 0 for \<open>x \<le> 0\<close>\<close>
  "numlen b x = (if 0 < x \<and> 1 < b then numlen b (x div b) + 1 else 0)"
  by pat_completeness auto
termination
  by (relation "measure (\<lambda>(b, x). nat x)") (auto intro: int_div_less_self)

declare numlen.simps [simp del]

definition flog :: "int \<Rightarrow> rat \<Rightarrow> int" where
  \<comment> \<open>the integer \<open>d\<close> with \<open>b ^ d \<le> a < b ^ (d + 1)\<close>, for a positive \<open>a\<close>\<close>
  "flog b a = (if 1 \<le> a then numlen b \<lfloor>a\<rfloor> - 1 else - numlen b (\<lceil>1 / a\<rceil> - 1))"

definition round_even :: "rat \<Rightarrow> int" where
  "round_even m =
     (let f = \<lfloor>m\<rfloor>; d = m - of_int f
      in if d < 1 / 2 then f else if 1 / 2 < d then f + 1 else if even f then f else f + 1)"

definition to_double :: "rat \<Rightarrow> jsnum" where
  \<comment> \<open>the double nearest to a real, ties to the even significand (IEEE 754 binary64): 53
     bits of significand, the least bit no smaller than \<open>2 ^ -1074\<close>, infinite when the
     rounded value reaches \<open>2 ^ 1024\<close>\<close>
  "to_double q =
     (if q = 0 then Fin 0
      else
        let a = \<bar>q\<bar>;
            p = max (flog 2 a - 52) (- 1074);
            r = of_int (round_even (a / ipow 2 p)) * ipow 2 p
        in if 1024 \<le> flog 2 r then (if q < 0 then NegInf else PosInf)
           else Fin (if q < 0 then - r else r))"

fun num_neg :: "jsnum \<Rightarrow> jsnum" where
  "num_neg NaN = NaN"
| "num_neg PosInf = NegInf"
| "num_neg NegInf = PosInf"
| "num_neg (Fin x) = Fin (- x)"

fun num_mul :: "jsnum \<Rightarrow> jsnum \<Rightarrow> jsnum" where
  "num_mul (Fin x) (Fin y) = to_double (x * y)"
| "num_mul NaN b = NaN"
| "num_mul a NaN = NaN"
| "num_mul PosInf PosInf = PosInf"
| "num_mul PosInf NegInf = NegInf"
| "num_mul NegInf PosInf = NegInf"
| "num_mul NegInf NegInf = PosInf"
| "num_mul PosInf (Fin y) = (if y = 0 then NaN else if 0 < y then PosInf else NegInf)"
| "num_mul NegInf (Fin y) = (if y = 0 then NaN else if 0 < y then NegInf else PosInf)"
| "num_mul (Fin x) PosInf = (if x = 0 then NaN else if 0 < x then PosInf else NegInf)"
| "num_mul (Fin x) NegInf = (if x = 0 then NaN else if 0 < x then NegInf else PosInf)"

fun num_add :: "jsnum \<Rightarrow> jsnum \<Rightarrow> jsnum" where
  "num_add (Fin x) (Fin y) = to_double (x + y)"
| "num_add NaN b = NaN"
| "num_add a NaN = NaN"
| "num_add PosInf NegInf = NaN"
| "num_add NegInf PosInf = NaN"
| "num_add PosInf b = PosInf"
| "num_add NegInf b = NegInf"
| "num_add (Fin x) PosInf = PosInf"
| "num_add (Fin x) NegInf = NegInf"

definition num_sub :: "jsnum \<Rightarrow> jsnum \<Rightarrow> jsnum" where
  "num_sub a b = num_add a (num_neg b)"

fun num_less :: "jsnum \<Rightarrow> jsnum \<Rightarrow> bool" where
  \<comment> \<open>\<open>a < b\<close>; false when an operand is \<open>NaN\<close>\<close>
  "num_less NaN b = False"
| "num_less a NaN = False"
| "num_less (Fin x) (Fin y) = (x < y)"
| "num_less NegInf NegInf = False"
| "num_less NegInf b = True"
| "num_less a PosInf = (a \<noteq> PosInf)"
| "num_less PosInf b = False"
| "num_less (Fin x) NegInf = False"

definition num_gt :: "jsnum \<Rightarrow> jsnum \<Rightarrow> bool" where
  "num_gt a b = num_less b a"

definition math_min :: "jsnum \<Rightarrow> jsnum \<Rightarrow> jsnum" where
  "math_min a b = (if a = NaN \<or> b = NaN then NaN else if num_less b a then b else a)"

definition math_max :: "jsnum \<Rightarrow> jsnum \<Rightarrow> jsnum" where
  "math_max a b = (if a = NaN \<or> b = NaN then NaN else if num_less a b then b else a)"

subsection \<open>parseFloat\<close>

definition digits_val :: "string \<Rightarrow> int" where
  "digits_val ds = foldl (\<lambda>n c. 10 * n + int (digit_val c)) 0 ds"

definition exponent_part :: "string \<Rightarrow> int" where
  \<comment> \<open>the value of the ExponentPart at the head of the text, 0 when there is none\<close>
  "exponent_part s =
     (case s of
        [] \<Rightarrow> 0
      | c # r \<Rightarrow>
          if c = CHR ''e'' \<or> c = CHR ''E'' then
            (case r of
               [] \<Rightarrow> 0
             | d # r' \<Rightarrow>
                 if d = CHR ''-'' then
                   - digits_val (takeWhile is_digit r')
                 else if d = CHR ''+'' then digits_val (takeWhile is_digit r')
                 else digits_val (takeWhile is_digit r))
          else 0)"

definition unsigned_literal :: "string \<Rightarrow> jsnum" where
  \<comment> \<open>the longest prefix that is a StrUnsignedDecimalLiteral, as a Number\<close>
  "unsigned_literal u =
     (if is_prefix ''Infinity'' u then PosInf
      else
        let ip = takeWhile is_digit u;
            r1 = dropWhile is_digit u;
            dot = (r1 \<noteq> [] \<and> hd r1 = CHR ''.'');
            fp = (if dot then takeWhile is_digit (tl r1) else []);
            r2 = (if dot then dropWhile is_digit (tl r1) else r1)
        in if ip = [] \<and> fp = [] then NaN
           else to_double
                  ((of_int (digits_val ip) + of_int (digits_val fp) / 10 ^ length fp)
                   * ipow 10 (exponent_part r2)))"

definition parseFloat :: "string \<Rightarrow> jsnum" where
  "parseFloat s =
     (case dropWhile is_ws s of
        [] \<Rightarrow> NaN
      | c # r \<Rightarrow>
          if c = CHR ''-'' then num_neg (unsigned_literal r)
          else if c = CHR ''+'' then unsigned_literal r
          else unsigned_literal (c # r))"

subsection \<open>Number to string\<close>

definition digit_char :: "int \<Rightarrow> char" where
  "digit_char d = char_of (48 + d)"

function digits_of :: "int \<Rightarrow> string" where
  \<comment> \<open>the decimal digits of an integer that is not negative\<close>
  "digits_of n = (if n < 10 then [digit_char n] else digits_of (n div 10) @ [digit_char (n mod 10)])"
  by pat_completeness auto
termination
  by (relation "measure nat") auto

declare digits_of.simps [simp del]

text \<open>
  \<open>Number::toString\<close> writes a positive double \<open>v\<close> with the digits of the integer \<open>s\<close> of
  \<open>k\<close> digits, \<open>k\<close> as small as possible, for which \<open>s * 10 ^ (n - k)\<close> is read back as \<open>v\<close>;
  of two such \<open>s\<close> the one nearer to \<open>v\<close>, the even one on a tie. With \<open>k\<close> digits only the
  two neighbours of \<open>v\<close> on the grid of its own decade can be read back as \<open>v\<close> and nearest.
\<close>

definition reads_back :: "rat \<Rightarrow> int \<times> int \<Rightarrow> nat \<Rightarrow> bool" where
  "reads_back v sn k = (to_double (of_int (fst sn) * ipow 10 (snd sn - int k)) = Fin v)"

definition digits_at :: "rat \<Rightarrow> nat \<Rightarrow> (int \<times> int) option" where
  "digits_at v k =
     (let n = flog 10 v + 1;
          lo = \<lfloor>v / ipow 10 (n - int k)\<rfloor>;
          below = (lo, n);
          above = (if lo + 1 = 10 ^ k then (10 ^ (k - 1), n + 1) else (lo + 1, n));
          dl = v - of_int lo * ipow 10 (n - int k);
          du = of_int (lo + 1) * ipow 10 (n - int k) - v
      in if reads_back v below k \<and> reads_back v above k then
           (if dl < du \<or> (dl = du \<and> even lo) then Some below else Some above)
         else if reads_back v below k then Some below
         else if reads_back v above k then Some above
         else None)"

function shortest_digits :: "rat \<Rightarrow> nat \<Rightarrow> int \<times> int \<times> nat" where
  \<comment> \<open>\<open>(s, n, k)\<close>, searched from \<open>k\<close> digits on; 17 digits always read back\<close>
  "shortest_digits v k =
     (if 17 \<le> k then (\<lfloor>v / ipow 10 (flog 10 v + 1 - int k)\<rfloor>, flog 10 v + 1, k)
      else case digits_at v k of
             Some (s, n) \<Rightarrow> (s, n, k)
           | None \<Rightarrow> shortest_digits v (Suc k))"
  by pat_completeness auto
termination
  by (relation "measure (\<lambda>(v, k). 17 - k)") auto

declare shortest_digits.simps [simp del]

definition format_digits :: "int \<times> int \<times> nat \<Rightarrow> string" where
  "format_digits snk =
     (case snk of (s, n, k) \<Rightarrow>
        let ds = digits_of s in
        if int k \<le> n \<and> n \<le> 21 then ds @ replicate (nat (n - int k)) CHR ''0''
        else if 0 < n \<and> n \<le> 21 then take (nat n) ds @ ''.'' @ drop (nat n) ds
        else if - 6 < n \<and> n \<le> 0 then ''0.'' @ replicate (nat (- n)) CHR ''0'' @ ds
        else
          let ex = (if n - 1 < 0 then ''-'' else ''+'') @ digits_of \<bar>n - 1\<bar> in
          if k = 1 then ds @ ''e'' @ ex
          else take 1 ds @ ''.'' @ drop 1 ds @ ''e'' @ ex)"

fun num_to_string :: "jsnum \<Rightarrow> string" where
  "num_to_string NaN = ''NaN''"
| "num_to_string PosInf = ''Infinity''"
| "num_to_string NegInf = ''-Infinity''"
| "num_to_string (Fin x) =
     (if x = 0 then ''0''
      else if x < 0 then ''-'' @ format_digits (shortest_digits (- x) 1)
      else format_digits (shortest_digits x 1))"

text \<open>
  \<open>Number.prototype.toFixed(f)\<close> for \<open>f\<close> between 0 and 100: the integer \<open>n\<close> with \<open>n / 10 ^ f\<close>
  nearest to the number (the larger on a tie), with the point \<open>f\<close> digits from the end; a
  number from \<open>10 ^ 21\<close> on, or a number that is not finite, as \<open>String\<close> writes it.
\<close>

definition fixed_digits :: "nat \<Rightarrow> rat \<Rightarrow> string" where
  "fixed_digits f x =
     (let m = digits_of \<lfloor>x * 10 ^ f + 1 / 2\<rfloor>;
          m' = (if f \<noteq> 0 \<and> length m \<le> f then replicate (f + 1 - length m) CHR ''0'' @ m else m)
      in if f = 0 then m' else take (length m' - f) m' @ ''.'' @ drop (length m' - f) m')"

fun toFixed :: "nat \<Rightarrow> jsnum \<Rightarrow> string" where
  "toFixed f (Fin x) =
     (if x < 0 then
        ''-'' @ (if 10 ^ 21 \<le> - x then num_to_string (Fin (- x)) else fixed_digits f (- x))
      else if 10 ^ 21 \<le> x then num_to_string (Fin x) else fixed_digits f x)"
| "toFixed f x = num_to_string x"

subsection \<open>Number strings hold no dollar sign\<close>

text \<open>
  A replacement string without \<open>$\<close> is inserted as it is. The strings written for numbers
  are made of digits, signs, a point, \<open>e\<close> and the names \<open>NaN\<close> and \<open>Infinity\<close>.
\<close>

lemma ipow_nonneg: "0 \<le> k \<Longrightarrow> ipow b k = b ^ nat k"
proof (induction b k rule: ipow.induct)
  case (1 b k)
  show ?case
  proof (cases "k = 0")
    case True
    then show ?thesis by (subst ipow.simps) simp
  next
    case False
    with 1(4) have pos: "0 < k" by simp
    then have k2: "0 \<le> k div 2" by simp
    show ?thesis
    proof (cases "even k")
      case True
      then have "nat k = 2 * nat (k div 2)" using pos by (auto elim!: evenE)
      then have "b ^ nat k = (b * b) ^ nat (k div 2)"
        by (simp add: power_mult power2_eq_square)
      with 1(2)[OF _ False True k2] pos True show ?thesis
        by (subst ipow.simps) simp
    next
      case odd: False
      then have "nat k = Suc (2 * nat (k div 2))" using pos by (auto elim!: oddE)
      then have "b ^ nat k = b * (b * b) ^ nat (k div 2)"
        by (simp add: power_mult power2_eq_square)
      with 1(3)[OF _ False odd k2] pos odd show ?thesis
        by (subst ipow.simps) simp
    qed
  qed
qed

lemma ipow_neg: "k < 0 \<Longrightarrow> ipow b k = 1 / b ^ nat (- k)"
  by (subst ipow.simps) (simp add: ipow_nonneg)

lemma ipow_pos: "0 < b \<Longrightarrow> 0 < ipow b k"
  by (cases "0 \<le> k") (simp_all add: ipow_nonneg ipow_neg)

definition plain :: "string \<Rightarrow> bool" where
  "plain s = (CHR ''$'' \<notin> set s)"

lemma plain_simps [simp]:
  "plain []" "plain (c # s) = (c \<noteq> CHR ''$'' \<and> plain s)" "plain (s @ t) = (plain s \<and> plain t)"
  by (auto simp: plain_def)

lemma plain_take: "plain s \<Longrightarrow> plain (take n s)"
  by (auto simp: plain_def dest: in_set_takeD)

lemma plain_drop: "plain s \<Longrightarrow> plain (drop n s)"
  by (auto simp: plain_def dest: in_set_dropD)

lemma plain_replicate: "c \<noteq> CHR ''$'' \<Longrightarrow> plain (replicate n c)"
  by (auto simp: plain_def)

lemma digit_char_plain: "0 \<le> d \<Longrightarrow> d < 10 \<Longrightarrow> digit_char d \<noteq> CHR ''$''"
proof -
  assume "0 \<le> d" "d < 10"
  then have "d = 0 \<or> d = 1 \<or> d = 2 \<or> d = 3 \<or> d = 4 \<or> d = 5 \<or> d = 6 \<or> d = 7 \<or> d = 8 \<or> d = 9"
    by arith
  then show ?thesis by (auto simp: digit_char_def char_of_def)
qed

lemma digits_of_plain: "0 \<le> n \<Longrightarrow> plain (digits_of n)"
proof (induction n rule: digits_of.induct)
  case (1 n)
  show ?case
  proof (cases "n < 10")
    case True
    with 1(2) show ?thesis by (subst digits_of.simps) (simp add: digit_char_plain)
  next
    case False
    then have "0 \<le> n div 10" by simp
    with 1(1)[OF False] have "plain (digits_of (n div 10))" by simp
    moreover have "digit_char (n mod 10) \<noteq> CHR ''$''" by (rule digit_char_plain) simp_all
    ultimately show ?thesis using False by (subst digits_of.simps) simp
  qed
qed

lemma digits_at_nonneg: "0 < v \<Longrightarrow> digits_at v k = Some (s, n) \<Longrightarrow> 0 \<le> s"
proof -
  assume v: "0 < v" and d: "digits_at v k = Some (s, n)"
  have "0 \<le> v / ipow 10 (flog 10 v + 1 - int k)"
    using v ipow_pos[of 10 "flog 10 v + 1 - int k"] by simp
  then have "0 \<le> \<lfloor>v / ipow 10 (flog 10 v + 1 - int k)\<rfloor>" by simp
  with d show ?thesis
    by (auto simp: digits_at_def Let_def split: if_splits)
qed

lemma shortest_digits_nonneg: "0 < v \<Longrightarrow> shortest_digits v k = (s, n, k') \<Longrightarrow> 0 \<le> s"
proof (induction v k rule: shortest_digits.induct)
  case (1 v k)
  show ?case
  proof (cases "17 \<le> k")
    case True
    have "0 \<le> v / ipow 10 (flog 10 v + 1 - int k)"
      using 1(2) ipow_pos[of 10 "flog 10 v + 1 - int k"] by simp
    then have "0 \<le> \<lfloor>v / ipow 10 (flog 10 v + 1 - int k)\<rfloor>" by simp
    with True 1(3) show ?thesis by (subst (asm) shortest_digits.simps) auto
  next
    case False
    show ?thesis
    proof (cases "digits_at v k")
      case None
      with False 1(3) have "shortest_digits v (Suc k) = (s, n, k')"
        by (subst (asm) shortest_digits.simps) simp
      with 1(1)[OF False None 1(2)] show ?thesis by simp
    next
      case (Some sn)
      obtain s' n' where sn: "sn = (s', n')" by (cases sn)
      with False Some 1(3) have "s = s'" by (subst (asm) shortest_digits.simps) simp
      with digits_at_nonneg[OF 1(2)] Some sn show ?thesis by simp
    qed
  qed
qed

lemma format_digits_plain: "0 \<le> s \<Longrightarrow> plain (format_digits (s, n, k))"
  by (simp add: format_digits_def Let_def digits_of_plain plain_take plain_drop plain_replicate)

lemma num_to_string_plain: "plain (num_to_string x)"
proof (cases x)
  case (Fin q)
  obtain s n k where p: "shortest_digits q 1 = (s, n, k)" by (cases "shortest_digits q 1")
  obtain s' n' k' where m: "shortest_digits (- q) 1 = (s', n', k')" by (cases "shortest_digits (- q) 1")
  show ?thesis
  proof (cases "q = 0")
    case True
    with Fin show ?thesis by simp
  next
    case False
    show ?thesis
    proof (cases "q < 0")
      case True
      then have "0 < - q" by simp
      from shortest_digits_nonneg[OF this m] have "0 \<le> s'" .
      with Fin True m show ?thesis by (simp add: format_digits_plain)
    next
      case nonneg: False
      with False have "0 < q" by simp
      from shortest_digits_nonneg[OF this p] have "0 \<le> s" .
      with Fin False nonneg p show ?thesis by (simp add: format_digits_plain)
    qed
  qed
qed simp_all

section \<open>The viewBox repair of the chord plugin\<close>

text \<open>
  What a caller can pass where the plugin expects a string: \<open>null\<close>, \<open>undefined\<close> or a
  string. A method call on \<open>null\<close> or \<open>undefined\<close> throws a \<open>TypeError\<close>.
\<close>

datatype arg = ArgNull | ArgUndefined | ArgString string

text \<open>
  An element taken out of an array of Numbers by destructuring: \<open>undefined\<close> beyond the end
  of the array. \<open>to_number\<close> is the conversion that \<open>></\<close> and \<open>*\<close> apply, \<open>to_str\<close> the one of
  a template literal.
\<close>

datatype jsval = Undefined | Num jsnum

definition elem :: "jsnum list \<Rightarrow> nat \<Rightarrow> jsval" where
  "elem xs i = (if i < length xs then Num (xs ! i) else Undefined)"

fun to_number :: "jsval \<Rightarrow> jsnum" where
  "to_number Undefined = NaN"
| "to_number (Num n) = n"

fun to_str :: "jsval \<Rightarrow> string" where
  "to_str Undefined = ''undefined''"
| "to_str (Num n) = num_to_string n"

text \<open>\<open>s.split(c)\<close> for a separator of one character: the texts between its occurrences.\<close>

fun split_on :: "char \<Rightarrow> string \<Rightarrow> string list" where
  "split_on c [] = [[]]"
| "split_on c (x # xs) =
     (if x = c then [] # split_on c xs
      else case split_on c xs of
             p # ps \<Rightarrow> (x # p) # ps
           | [] \<Rightarrow> [[x]])"

definition lit_1_2 :: jsnum where
  \<comment> \<open>the Number that the literal \<open>1.2\<close> denotes\<close>
  "lit_1_2 = to_double (12 / 10)"

definition viewBox_rx :: rx where
  \<comment> \<open>\<open>/viewBox="([^"]+)"/\<close>\<close>
  "viewBox_rx = Cat (Lit ''viewBox=\"'') (Cat (Grp (Rep (Except ''\"'') True 1)) (Lit ''\"''))"

definition viewBox_attr_rx :: rx where
  \<comment> \<open>\<open>/viewBox="[^"]+"/\<close>\<close>
  "viewBox_attr_rx = Cat (Lit ''viewBox=\"'') (Cat (Rep (Except ''\"'') True 1) (Lit ''\"''))"

text \<open>
  \<open>fixSvgViewBox\<close>. The line it writes to the console is not part of the model.
\<close>

definition fixSvgViewBox :: "arg \<Rightarrow> error + string" where
  "fixSvgViewBox svgContent =
     (case svgContent of
        ArgString s \<Rightarrow>
          (case rx_exec False viewBox_rx s of
             None \<Rightarrow> Inr s
           | Some (b, m, caps, a) \<Rightarrow>
               (case nth_cap caps 1 of
                  None \<Rightarrow> Inl TypeError
                | Some v \<Rightarrow>
                    let nums = map parseFloat (split_on CHR '' '' v);
                        x = elem nums 0; y = elem nums 1;
                        width = elem nums 2; height = elem nums 3
                    in if num_gt (to_number height) (Fin 0) then Inr s
                       else
                         let calculatedHeight = num_mul (to_number width) lit_1_2;
                             fixedViewBox =
                               ''viewBox=\"'' @ to_str x @ '' '' @ to_str y @ '' '' @ to_str width
                               @ '' '' @ num_to_string calculatedHeight @ ''\"''
                         in Inr (rx_replace False viewBox_attr_rx fixedViewBox s)))
      | _ \<Rightarrow> Inl TypeError)"

text \<open>
  \<open>fixMultipleSvgViewBoxes\<close>: the replacer function, called on every match of
  \<open>/<svg[^>]*>/g\<close>, and the function itself.
\<close>

definition svg_tag_rx :: rx where
  "svg_tag_rx = Cat (Lit ''<svg'') (Cat (Rep (Except ''>'') True 0) (Lit ''>''))"

definition fix_tag :: "string \<Rightarrow> string list \<Rightarrow> error + string" where
  "fix_tag match groups =
     (case rx_exec False viewBox_rx match of
        None \<Rightarrow> Inr match
      | Some (b, m, caps, a) \<Rightarrow>
          (case nth_cap caps 1 of
             None \<Rightarrow> Inl TypeError
           | Some v \<Rightarrow>
               let nums = map parseFloat (split_on CHR '' '' v);
                   x = elem nums 0; y = elem nums 1;
                   width = elem nums 2; height = elem nums 3
               in if num_gt (to_number height) (Fin 0) then Inr match
                  else
                    let calculatedHeight = num_mul (to_number width) lit_1_2;
                        fixedViewBox =
                          ''viewBox=\"'' @ to_str x @ '' '' @ to_str y @ '' '' @ to_str width
                          @ '' '' @ num_to_string calculatedHeight @ ''\"''
                    in Inr (rx_replace False viewBox_attr_rx fixedViewBox match)))"

definition fixMultipleSvgViewBoxes :: "arg \<Rightarrow> error + string" where
  "fixMultipleSvgViewBoxes htmlContent =
     (case htmlContent of
        ArgString s \<Rightarrow> rx_replace_fn False svg_tag_rx fix_tag s
      | _ \<Rightarrow> Inl TypeError)"


subsection \<open>What the repair does to a fragment\<close>

lemma to_str_plain: "plain (to_str v)"
  by (cases v) (simp_all add: num_to_string_plain)

lemma expand_template_plain': "plain t \<Longrightarrow> expand_template t b m caps a = t"
  by (simp add: plain_def expand_template_plain)

lemma fixedViewBox_plain:
  "expand_template (''viewBox=\"'' @ to_str x @ '' '' @ to_str y @ '' '' @ to_str w @ '' ''
      @ num_to_string h @ ''\"'') b m caps a
   = ''viewBox=\"'' @ to_str x @ '' '' @ to_str y @ '' '' @ to_str w @ '' '' @ num_to_string h @ ''\"''"
proof (rule expand_template_plain')
  show "plain (''viewBox=\"'' @ to_str x @ '' '' @ to_str y @ '' '' @ to_str w @ '' ''
      @ num_to_string h @ ''\"'')"
    by (simp add: to_str_plain num_to_string_plain)
qed

lemma viewBox_caps:
  assumes "rx_exec False viewBox_rx s = Some (b, m, caps, a)"
  shows "\<exists>v. caps = [v] \<and> v \<noteq> [] \<and> CHR 0x22 \<notin> set v \<and> s = b @ ''viewBox=\"'' @ v @ ''\"'' @ a"
proof -
  from assms obtain v where v: "caps = [v]" "1 \<le> length v" "CHR 0x22 \<notin> set v"
    "s = b @ ''viewBox=\"'' @ v @ [CHR 0x22] @ a"
    unfolding viewBox_rx_def by (blast dest: rx_exec_attr_shape)
  from v(2) have "v \<noteq> []" by auto
  with v show ?thesis by blast
qed

lemma viewBox_attr_exec:
  assumes "rx_exec False viewBox_rx s = Some (b, m, caps, a)"
  shows "rx_exec False viewBox_attr_rx s = Some (b, m, [], a)"
  using assms unfolding viewBox_attr_rx_def viewBox_rx_def by (simp add: rx_exec_attr)

lemma rx_replace_viewBox:
  assumes "rx_exec False viewBox_rx s = Some (b, m, caps, a)"
  shows "rx_replace False viewBox_attr_rx
           (''viewBox=\"'' @ to_str x @ '' '' @ to_str y @ '' '' @ to_str w @ '' '' @ num_to_string h @ ''\"'') s
         = b @ (''viewBox=\"'' @ to_str x @ '' '' @ to_str y @ '' '' @ to_str w @ '' '' @ num_to_string h @ ''\"'') @ a"
  unfolding rx_replace_def
  by (simp only: viewBox_attr_exec[OF assms] option.case prod.case fixedViewBox_plain)

lemma fixSvgViewBox_absent:
  "\<not> occurs ''viewBox=\"'' s \<Longrightarrow> fixSvgViewBox (ArgString s) = Inr s"
proof -
  assume "\<not> occurs ''viewBox=\"'' s"
  then have "\<And>p q. s \<noteq> p @ ''viewBox=\"'' @ q" by (simp add: occurs_iff)
  then have "rx_exec False viewBox_rx s = None"
    unfolding viewBox_rx_def by (rule rx_exec_attr_none)
  then show ?thesis by (simp add: fixSvgViewBox_def)
qed

lemma fix_tag_eq: "fix_tag m g = fixSvgViewBox (ArgString m)"
  by (simp add: fix_tag_def fixSvgViewBox_def)

lemma fixSvgViewBox_unfold:
  assumes "rx_exec False viewBox_rx s = Some (b, m, [v], a)"
  shows "fixSvgViewBox (ArgString s) =
     (if num_gt (to_number (elem (map parseFloat (split_on CHR '' '' v)) 3)) (Fin 0) then Inr s
      else Inr (b @ (''viewBox=\"'' @ to_str (elem (map parseFloat (split_on CHR '' '' v)) 0) @ '' ''
                 @ to_str (elem (map parseFloat (split_on CHR '' '' v)) 1) @ '' ''
                 @ to_str (elem (map parseFloat (split_on CHR '' '' v)) 2) @ '' ''
                 @ num_to_string (num_mul (to_number (elem (map parseFloat (split_on CHR '' '' v)) 2)) lit_1_2)
                 @ ''\"'') @ a))"
  unfolding fixSvgViewBox_def
  by (simp only: assms arg.case option.case prod.case nth_cap_def Let_def
        rx_replace_viewBox[OF assms]) simp

lemma fixSvgViewBox_keep:
  assumes "rx_exec False viewBox_rx s = Some (b, m, [v], a)"
    and "map parseFloat (split_on CHR '' '' v) = x # y # w # h # more"
    and "num_gt h (Fin 0)"
  shows "fixSvgViewBox (ArgString s) = Inr s"
  by (simp add: fixSvgViewBox_unfold[OF assms(1)] assms(2) assms(3) elem_def)


lemma fixSvgViewBox_total: "\<exists>r. fixSvgViewBox (ArgString s) = Inr r"
proof (cases "rx_exec False viewBox_rx s")
  case None
  then show ?thesis by (simp add: fixSvgViewBox_def)
next
  case (Some res)
  obtain b m caps a where res: "res = (b, m, caps, a)" by (cases res)
  with Some viewBox_caps obtain v where "caps = [v]" by blast
  with Some res have "rx_exec False viewBox_rx s = Some (b, m, [v], a)" by simp
  from fixSvgViewBox_unfold[OF this] show ?thesis by (simp split: if_splits)
qed

subsection \<open>The single-fragment repair\<close>



text \<open>
  Claim C4. When the value of the first \<open>viewBox="..."\<close> of a fragment is read as four
  numbers (or more) of which the fourth is greater than 0, \<open>fixSvgViewBox\<close> returns the
  fragment as it is. The witness is \<open>viewBox="0 0 300 150"\<close>.
\<close>

theorem fixSvgViewBox_positive:
  assumes "rx_exec False viewBox_rx s = Some (b, m, [v], a)"
    and "map parseFloat (split_on CHR '' '' v) = x # y # w # h # more"
    and "num_gt h (Fin 0)"
  shows "fixSvgViewBox (ArgString s) = Inr s"
  using assms by (rule fixSvgViewBox_keep)

theorem fixSvgViewBox_positive_witness:
  "fixSvgViewBox (ArgString ''<svg viewBox=\"0 0 300 150\"></svg>'') = Inr ''<svg viewBox=\"0 0 300 150\"></svg>''"
proof -
  have e: "rx_exec False viewBox_rx ''<svg viewBox=\"0 0 300 150\"></svg>''
      = Some (''<svg '', ''viewBox=\"0 0 300 150\"'', [''0 0 300 150''], ''></svg>'')"
    by code_simp
  have p: "map parseFloat (split_on CHR '' '' ''0 0 300 150'') = Fin 0 # Fin 0 # Fin 300 # Fin 150 # []"
    by code_simp
  have h: "num_gt (Fin 150) (Fin 0)" by (simp add: num_gt_def)
  from fixSvgViewBox_positive[OF e p h] show ?thesis .
qed

text \<open>
  Claim C5. A fragment in which the text \<open>viewBox="\<close> does not occur is returned as it is,
  as a result and not as an error.
\<close>

theorem fixSvgViewBox_no_viewBox:
  "\<not> occurs ''viewBox=\"'' s \<Longrightarrow> fixSvgViewBox (ArgString s) = Inr s"
  by (rule fixSvgViewBox_absent)

theorem fixSvgViewBox_no_viewBox_witness:
  "fixSvgViewBox (ArgString ''<svg width=\"10\"><g/></svg>'') = Inr ''<svg width=\"10\"><g/></svg>''"
proof -
  have "\<not> occurs ''viewBox=\"'' ''<svg width=\"10\"><g/></svg>''" by code_simp
  then show ?thesis by (rule fixSvgViewBox_no_viewBox)
qed

text \<open>
  Claim C3 (idempotence of the repair) fails on the code: a viewBox value of fewer than three
  components is destructured into \<open>undefined\<close>, the first pass writes the word
  \<open>undefined\<close> into the attribute, and the second pass reads that word back as \<open>NaN\<close>.
  Both repair functions, run at \<open>viewBox="5"\<close>:
\<close>

theorem fixSvgViewBox_twice_differs:
  "fixSvgViewBox (ArgString ''<svg viewBox=\"5\">'') = Inr ''<svg viewBox=\"5 undefined undefined NaN\">'' \<and>
   fixSvgViewBox (ArgString ''<svg viewBox=\"5 undefined undefined NaN\">'') = Inr ''<svg viewBox=\"5 NaN NaN NaN\">'' \<and>
   fixMultipleSvgViewBoxes (ArgString ''<svg viewBox=\"5\">'') = Inr ''<svg viewBox=\"5 undefined undefined NaN\">'' \<and>
   fixMultipleSvgViewBoxes (ArgString ''<svg viewBox=\"5 undefined undefined NaN\">'') = Inr ''<svg viewBox=\"5 NaN NaN NaN\">''"
  by code_simp

subsection \<open>The batch repair\<close>





lemma rx_replace_fn_none: "rx_exec ic r s = None \<Longrightarrow> rx_replace_fn ic r f s = Inr s"
  by (subst rx_replace_fn.simps) simp

lemma rx_replace_fn_step:
  "rx_exec ic r s = Some (b, m, caps, a) \<Longrightarrow> m \<noteq> [] \<Longrightarrow> f m caps = Inr t \<Longrightarrow>
   rx_replace_fn ic r f a = Inr rest \<Longrightarrow> rx_replace_fn ic r f s = Inr (b @ t @ rest)"
  by (subst rx_replace_fn.simps) simp

lemma rx_replace_fn_total:
  assumes "\<And>m caps. \<exists>t. f m caps = Inr t"
  shows "\<exists>res. rx_replace_fn ic r f s = Inr res"
proof (induction s rule: length_induct)
  case (1 s)
  show ?case
  proof (cases "rx_exec ic r s")
    case None
    then show ?thesis by (simp add: rx_replace_fn_none)
  next
    case (Some res)
    obtain b m caps a where res: "res = (b, m, caps, a)" by (cases res)
    with Some have ex: "rx_exec ic r s = Some (b, m, caps, a)" by simp
    from rx_exec_sound[OF ex] have s: "s = b @ m @ a" .
    from assms obtain t where t: "f m caps = Inr t" by blast
    show ?thesis
    proof (cases "m = []")
      case False
      with s have "length a < length s" by simp
      with 1 obtain rest where "rx_replace_fn ic r f a = Inr rest" by blast
      from rx_replace_fn_step[OF ex False t this] show ?thesis by blast
    next
      case True
      show ?thesis
      proof (cases a)
        case Nil
        with ex True t show ?thesis by (subst rx_replace_fn.simps) simp
      next
        case (Cons c cs)
        with s have "length cs < length s" by simp
        with 1 obtain rest where "rx_replace_fn ic r f cs = Inr rest" by blast
        with ex True t Cons show ?thesis by (subst rx_replace_fn.simps) simp
      qed
    qed
  qed
qed





section \<open>compactSvg of the LilyPond plugin\<close>

fun seq :: "rx list \<Rightarrow> rx" where
  "seq [] = Lit []"
| "seq [r] = r"
| "seq (r # rs) = Cat r (seq rs)"

subsection \<open>Removing the attribution\<close>

definition attribution_link_rx :: rx where
  \<comment> \<open>\<open>/<a[^>]*lilypond\.org[^>]*>[\s\S]*?<\/a>/gi\<close>\<close>
  "attribution_link_rx =
     seq [Lit ''<a'', Rep (Except ''>'') True 0, Lit ''lilypond.org'', Rep (Except ''>'') True 0,
          Lit ''>'', Rep AnyChar False 0, Lit ''</a>'']"

definition attribution_text_rx :: rx where
  \<comment> \<open>\<open>/<text[^>]*>[\s\S]*?(?:Music engraving|LilyPond)[\s\S]*?<\/text>/gi\<close>\<close>
  "attribution_text_rx =
     seq [Lit ''<text'', Rep (Except ''>'') True 0, Lit ''>'', Rep AnyChar False 0,
          Alt (Lit ''Music engraving'') (Lit ''LilyPond''), Rep AnyChar False 0, Lit ''</text>'']"

definition attribution_group_rx :: rx where
  \<comment> \<open>\<open>/<g[^>]*>\s*<(?:a|text)[^>]*(?:lilypond|Music engraving)[\s\S]*?<\/g>/gi\<close>\<close>
  "attribution_group_rx =
     seq [Lit ''<g'', Rep (Except ''>'') True 0, Lit ''>'', Rep Space True 0, Lit ''<'',
          Alt (Lit ''a'') (Lit ''text''), Rep (Except ''>'') True 0,
          Alt (Lit ''lilypond'') (Lit ''Music engraving''), Rep AnyChar False 0, Lit ''</g>'']"

definition strip_attribution :: "string \<Rightarrow> string" where
  \<comment> \<open>the first three statements of \<open>compactSvg\<close>\<close>
  "strip_attribution svgContent =
     rx_replace_all True attribution_group_rx []
       (rx_replace_all True attribution_text_rx []
         (rx_replace_all True attribution_link_rx [] svgContent))"

subsection \<open>The content bounds\<close>

definition svg_viewBox_rx :: rx where
  \<comment> \<open>\<open>/<svg[^>]*viewBox="([^"]*)"[^>]*>/\<close>\<close>
  "svg_viewBox_rx =
     seq [Lit ''<svg'', Rep (Except ''>'') True 0, Lit ''viewBox=\"'', Grp (Rep (Except ''\"'') True 0),
          Lit ''\"'', Rep (Except ''>'') True 0, Lit ''>'']"

definition translate_rx :: rx where
  \<comment> \<open>\<open>/transform="translate\(([^)]+)\)"/g\<close>\<close>
  "translate_rx = seq [Lit ''transform=\"translate('', Grp (Rep (Except '')'') True 1), Lit '')\"'']"

definition line_rx :: rx where
  \<comment> \<open>\<open>/<line[^>]*x2="([^"]*)"[^>]*>/g\<close>\<close>
  "line_rx =
     seq [Lit ''<line'', Rep (Except ''>'') True 0, Lit ''x2=\"'', Grp (Rep (Except ''\"'') True 0),
          Lit ''\"'', Rep (Except ''>'') True 0, Lit ''>'']"

definition rect_rx :: rx where
  \<comment> \<open>\<open>/<rect[^>]*x="([^"]*)"[^>]*width="([^"]*)"[^>]*>/g\<close>\<close>
  "rect_rx =
     seq [Lit ''<rect'', Rep (Except ''>'') True 0, Lit ''x=\"'', Grp (Rep (Except ''\"'') True 0),
          Lit ''\"'', Rep (Except ''>'') True 0, Lit ''width=\"'', Grp (Rep (Except ''\"'') True 0),
          Lit ''\"'', Rep (Except ''>'') True 0, Lit ''>'']"

definition path_group_rx :: rx where
  \<comment> \<open>\<open>/<g transform="translate\(([^)]+)\)"[^>]*>[\s\S]*?<path[^>]*>/g\<close>\<close>
  "path_group_rx =
     seq [Lit ''<g transform=\"translate('', Grp (Rep (Except '')'') True 1), Lit '')\"'',
          Rep (Except ''>'') True 0, Lit ''>'', Rep AnyChar False 0, Lit ''<path'',
          Rep (Except ''>'') True 0, Lit ''>'']"

definition set_viewBox_rx :: rx where
  \<comment> \<open>\<open>/(<svg[^>]*viewBox=")[^"]*(")/\<close>\<close>
  "set_viewBox_rx =
     seq [Grp (seq [Lit ''<svg'', Rep (Except ''>'') True 0, Lit ''viewBox=\"'']),
          Rep (Except ''\"'') True 0, Grp (Lit ''\"'')]"

definition set_width_rx :: rx where
  \<comment> \<open>\<open>/(<svg[^>]*)width="[^"]*"/\<close>\<close>
  "set_width_rx =
     seq [Grp (seq [Lit ''<svg'', Rep (Except ''>'') True 0]), Lit ''width=\"'',
          Rep (Except ''\"'') True 0, Lit ''\"'']"

definition set_height_rx :: rx where
  \<comment> \<open>\<open>/(<svg[^>]*)height="[^"]*"/\<close>\<close>
  "set_height_rx =
     seq [Grp (seq [Lit ''<svg'', Rep (Except ''>'') True 0]), Lit ''height=\"'',
          Rep (Except ''\"'') True 0, Lit ''\"'']"

text \<open>
  \<open>s.split(/\s+/)\<close>: the texts between the runs of white space; a run at either end leaves
  an empty text there.
\<close>

function split_ws :: "string \<Rightarrow> string list" where
  "split_ws [] = [[]]"
| "split_ws (c # cs) =
     (if is_ws c then [] # split_ws (dropWhile is_ws cs)
      else case split_ws cs of
             p # ps \<Rightarrow> (c # p) # ps
           | [] \<Rightarrow> [[c]])"
  by pat_completeness auto
termination
  by (relation "measure length") (auto simp: length_dropWhile_le less_Suc_eq_le)

definition trim :: "string \<Rightarrow> string" where
  "trim s = rev (dropWhile is_ws (rev (dropWhile is_ws s)))"

definition coords_of :: "string \<Rightarrow> jsnum list" where
  \<comment> \<open>\<open>v.split(",").map((s) => parseFloat(s.trim()))\<close>\<close>
  "coords_of v = map (\<lambda>s. parseFloat (trim s)) (split_on CHR '','' v)"

record bounds =
  minX :: jsnum
  maxX :: jsnum
  minY :: jsnum
  maxY :: jsnum

definition no_bounds :: bounds where
  "no_bounds = \<lparr>minX = PosInf, maxX = NegInf, minY = PosInf, maxY = NegInf\<rparr>"

text \<open>
  The four loops over the matches. \<open>match[1].split\<close> throws when the group is \<open>undefined\<close>;
  \<open>parseFloat(match[1])\<close> is \<open>NaN\<close> then.
\<close>

fun scan_transforms :: "(string \<times> string list) list \<Rightarrow> bounds \<Rightarrow> error + bounds" where
  "scan_transforms [] bd = Inr bd"
| "scan_transforms ((m, caps) # ms) bd =
     (case nth_cap caps 1 of
        None \<Rightarrow> Inl TypeError
      | Some v \<Rightarrow>
          let coords = coords_of v in
          scan_transforms ms
            (if 2 \<le> length coords then
               bd\<lparr>minX := math_min (minX bd) (coords ! 0), maxX := math_max (maxX bd) (coords ! 0),
                  minY := math_min (minY bd) (coords ! 1), maxY := math_max (maxY bd) (coords ! 1)\<rparr>
             else bd))"

definition parse_cap :: "string list \<Rightarrow> nat \<Rightarrow> jsnum" where
  "parse_cap caps i = (case nth_cap caps i of None \<Rightarrow> NaN | Some v \<Rightarrow> parseFloat v)"

fun scan_lines :: "(string \<times> string list) list \<Rightarrow> bounds \<Rightarrow> bounds" where
  "scan_lines [] bd = bd"
| "scan_lines ((m, caps) # ms) bd =
     (let x2 = parse_cap caps 1 in
      scan_lines ms (if x2 \<noteq> NaN then bd\<lparr>maxX := math_max (maxX bd) x2\<rparr> else bd))"

definition or_zero :: "jsnum \<Rightarrow> jsnum" where
  \<comment> \<open>\<open>n || 0\<close>: \<open>NaN\<close> and zero are falsy\<close>
  "or_zero n = (if n = NaN \<or> n = Fin 0 then Fin 0 else n)"

fun scan_rects :: "(string \<times> string list) list \<Rightarrow> bounds \<Rightarrow> bounds" where
  "scan_rects [] bd = bd"
| "scan_rects ((m, caps) # ms) bd =
     (let x = or_zero (parse_cap caps 1); width = or_zero (parse_cap caps 2) in
      scan_rects ms (bd\<lparr>maxX := math_max (maxX bd) (num_add x width)\<rparr>))"

fun scan_paths :: "(string \<times> string list) list \<Rightarrow> bounds \<Rightarrow> error + bounds" where
  "scan_paths [] bd = Inr bd"
| "scan_paths ((m, caps) # ms) bd =
     (case nth_cap caps 1 of
        None \<Rightarrow> Inl TypeError
      | Some v \<Rightarrow>
          let coords = coords_of v in
          scan_paths ms
            (if 2 \<le> length coords then bd\<lparr>maxX := math_max (maxX bd) (num_add (coords ! 0) (Fin 2))\<rparr>
             else bd))"

definition content_bounds :: "string \<Rightarrow> error + bounds" where
  "content_bounds svgContent =
     (case scan_transforms (rx_match_all False translate_rx svgContent) no_bounds of
        Inl e \<Rightarrow> Inl e
      | Inr b1 \<Rightarrow>
          scan_paths (rx_match_all False path_group_rx svgContent)
            (scan_rects (rx_match_all False rect_rx svgContent)
              (scan_lines (rx_match_all False line_rx svgContent) b1)))"

definition has_estimate :: "bounds \<Rightarrow> bool" where
  \<comment> \<open>\<open>minX < Infinity && minY < Infinity && maxX > -Infinity\<close>\<close>
  "has_estimate bd = (num_less (minX bd) PosInf \<and> num_less (minY bd) PosInf \<and> num_gt (maxX bd) NegInf)"

definition crop_to :: "bounds \<Rightarrow> string \<Rightarrow> string" where
  \<comment> \<open>the body of the last \<open>if\<close>: the padded rectangle written into the \<open>svg\<close> tag\<close>
  "crop_to bd svgContent =
     (let padding = Fin 5;
          contentX = math_max (Fin 0) (num_sub (minX bd) padding);
          contentY = math_max (Fin 0) (num_sub (minY bd) padding);
          contentWidth = num_add (num_sub (maxX bd) (minX bd)) (num_mul (Fin 2) padding);
          contentHeight = num_add (num_sub (maxY bd) (minY bd)) (num_mul (Fin 2) padding);
          newViewBox = num_to_string contentX @ '' '' @ num_to_string contentY @ '' ''
                       @ num_to_string contentWidth @ '' '' @ num_to_string contentHeight;
          s1 = rx_replace False set_viewBox_rx (''$1'' @ newViewBox @ ''$2'') svgContent;
          s2 = rx_replace False set_width_rx ''$1width=\"100%\"'' s1
      in rx_replace False set_height_rx (''$1height=\"'' @ toFixed 2 contentHeight @ ''\"'') s2)"

definition compactSvg :: "arg \<Rightarrow> error + string" where
  "compactSvg svgContent =
     (case svgContent of
        ArgString s0 \<Rightarrow>
          let s = strip_attribution s0 in
          (case rx_exec False svg_viewBox_rx s of
             None \<Rightarrow> Inr s
           | Some (b, m, caps, a) \<Rightarrow>
               (case nth_cap caps 1 of
                  None \<Rightarrow> Inl TypeError
                | Some v \<Rightarrow>
                    if length (map parseFloat (split_ws v)) = 4 then
                      (case content_bounds s of
                         Inl e \<Rightarrow> Inl e
                       | Inr bd \<Rightarrow> if has_estimate bd then Inr (crop_to bd s) else Inr s)
                    else Inr s))
      | _ \<Rightarrow> Inl TypeError)"

subsection \<open>The hints of a fragment\<close>



fun is_fin :: "jsnum \<Rightarrow> bool" where
  "is_fin (Fin q) = True"
| "is_fin n = False"



subsection \<open>The number of captures of a match\<close>

fun ngroups :: "rx \<Rightarrow> nat" where
  "ngroups (Lit l) = 0"
| "ngroups (Rep cs greedy n) = 0"
| "ngroups (Cat a b) = ngroups a + ngroups b"
| "ngroups (Alt a b) = ngroups a"
| "ngroups (Grp a) = Suc (ngroups a)"

fun even_alts :: "rx \<Rightarrow> bool" where
  "even_alts (Lit l) = True"
| "even_alts (Rep cs greedy n) = True"
| "even_alts (Cat a b) = (even_alts a \<and> even_alts b)"
| "even_alts (Alt a b) = (even_alts a \<and> even_alts b \<and> ngroups a = ngroups b)"
| "even_alts (Grp a) = even_alts a"

lemma rx_match_ngroups:
  "even_alts r \<Longrightarrow> (rest, caps') \<in> set (rx_match ic r s caps) \<Longrightarrow>
   length caps' = length caps + ngroups r"
proof (induction r arbitrary: s caps rest caps')
  case (Lit l)
  then show ?case by (auto split: if_splits)
next
  case (Rep cs greedy n)
  then show ?case by (auto simp: Let_def split: if_splits)
next
  case (Cat a b)
  from Cat.prems obtain s1 c1 where
    a: "(s1, c1) \<in> set (rx_match ic a s caps)" and b: "(rest, caps') \<in> set (rx_match ic b s1 c1)"
    by auto
  from Cat.prems(1) have "even_alts a" "even_alts b" by simp_all
  with Cat.IH(1)[OF _ a] Cat.IH(2)[OF _ b] show ?case by simp
next
  case (Alt a b)
  then show ?case by auto
next
  case (Grp a)
  then show ?case by auto
qed

lemma rx_exec_ngroups:
  assumes "even_alts r" and "rx_exec ic r s = Some (b, m, caps, a)"
  shows "length caps = ngroups r"
proof -
  from assms(2) obtain t xs where "rx_match ic r t [] = (a, caps) # xs"
    unfolding rx_exec_def by (blast dest: rx_search_some)
  then have "(a, caps) \<in> set (rx_match ic r t [])" by simp
  from rx_match_ngroups[OF assms(1) this] show ?thesis by simp
qed

lemma rx_match_all_ngroups:
  assumes "even_alts r"
  shows "(m, caps) \<in> set (rx_match_all ic r s) \<Longrightarrow> length caps = ngroups r"
proof (induction s rule: length_induct)
  case (1 s)
  show ?case
  proof (cases "rx_exec ic r s")
    case None
    with 1(2) show ?thesis by (subst (asm) rx_match_all.simps) simp
  next
    case (Some res)
    obtain b m0 c0 a where res: "res = (b, m0, c0, a)" by (cases res)
    with Some have ex: "rx_exec ic r s = Some (b, m0, c0, a)" by simp
    from rx_exec_sound[OF ex] have s: "s = b @ m0 @ a" .
    from 1(2) ex have mem: "(m, caps) = (m0, c0) \<or>
        (m0 \<noteq> [] \<and> (m, caps) \<in> set (rx_match_all ic r a)) \<or>
        (m0 = [] \<and> (\<exists>c cs. a = c # cs \<and> (m, caps) \<in> set (rx_match_all ic r cs)))"
      by (subst (asm) rx_match_all.simps) (auto split: if_splits list.splits)
    then show ?thesis
    proof (elim disjE conjE exE)
      assume "(m, caps) = (m0, c0)"
      with rx_exec_ngroups[OF assms ex] show ?thesis by simp
    next
      assume h: "m0 \<noteq> []" "(m, caps) \<in> set (rx_match_all ic r a)"
      from s h(1) have "length a < length s" by simp
      with 1(1) h(2) show ?thesis by blast
    next
      fix c cs assume h: "a = c # cs" "(m, caps) \<in> set (rx_match_all ic r cs)"
      from s h(1) have "length cs < length s" by simp
      with 1(1) h(2) show ?thesis by blast
    qed
  qed
qed

lemma nth_cap_Some: "1 \<le> i \<Longrightarrow> i \<le> length caps \<Longrightarrow> \<exists>v. nth_cap caps i = Some v"
  by (simp add: nth_cap_def)

subsection \<open>compactSvg returns\<close>

lemma scan_transforms_total:
  "\<forall>x \<in> set ms. length (snd x) = 1 \<Longrightarrow> \<exists>bd'. scan_transforms ms bd = Inr bd'"
proof (induction ms arbitrary: bd)
  case Nil
  show ?case by simp
next
  case (Cons x ms)
  obtain m caps where x: "x = (m, caps)" by (cases x)
  with Cons.prems have "length caps = 1" by simp
  then obtain v where v: "nth_cap caps 1 = Some v" using nth_cap_Some[of 1 caps] by auto
  from Cons.IH Cons.prems have "\<And>bd. \<exists>bd'. scan_transforms ms bd = Inr bd'" by simp
  with x v show ?case by (simp add: Let_def)
qed

lemma scan_paths_total:
  "\<forall>x \<in> set ms. length (snd x) = 1 \<Longrightarrow> \<exists>bd'. scan_paths ms bd = Inr bd'"
proof (induction ms arbitrary: bd)
  case Nil
  show ?case by simp
next
  case (Cons x ms)
  obtain m caps where x: "x = (m, caps)" by (cases x)
  with Cons.prems have "length caps = 1" by simp
  then obtain v where v: "nth_cap caps 1 = Some v" using nth_cap_Some[of 1 caps] by auto
  from Cons.IH Cons.prems have "\<And>bd. \<exists>bd'. scan_paths ms bd = Inr bd'" by simp
  with x v show ?case by (simp add: Let_def)
qed

lemma translate_caps: "\<forall>x \<in> set (rx_match_all False translate_rx s). length (snd x) = 1"
  using rx_match_all_ngroups[of translate_rx _ _ False s] by (auto simp: translate_rx_def)

lemma path_group_caps: "\<forall>x \<in> set (rx_match_all False path_group_rx s). length (snd x) = 1"
  using rx_match_all_ngroups[of path_group_rx _ _ False s] by (auto simp: path_group_rx_def)

lemma svg_viewBox_caps: "rx_exec False svg_viewBox_rx s = Some (b, m, caps, a) \<Longrightarrow> length caps = 1"
  using rx_exec_ngroups[of svg_viewBox_rx False s b m caps a] by (simp add: svg_viewBox_rx_def)

lemma content_bounds_total: "\<exists>bd. content_bounds s = Inr bd"
proof -
  obtain b1 where b1: "scan_transforms (rx_match_all False translate_rx s) no_bounds = Inr b1"
    using scan_transforms_total[OF translate_caps] by blast
  with scan_paths_total[OF path_group_caps] show ?thesis
    by (simp add: content_bounds_def)
qed

lemma compactSvg_cases:
  "compactSvg (ArgString s0) = Inr (strip_attribution s0) \<or>
   (\<exists>bd. content_bounds (strip_attribution s0) = Inr bd \<and> has_estimate bd \<and>
         compactSvg (ArgString s0) = Inr (crop_to bd (strip_attribution s0)))"
proof (cases "rx_exec False svg_viewBox_rx (strip_attribution s0)")
  case None
  then show ?thesis by (simp add: compactSvg_def)
next
  case (Some res)
  obtain b m caps a where res: "res = (b, m, caps, a)" by (cases res)
  with Some have ex: "rx_exec False svg_viewBox_rx (strip_attribution s0) = Some (b, m, caps, a)"
    by simp
  from svg_viewBox_caps[OF ex] obtain v where v: "nth_cap caps 1 = Some v"
    using nth_cap_Some[of 1 caps] by auto
  obtain bd where bd: "content_bounds (strip_attribution s0) = Inr bd"
    using content_bounds_total by blast
  from ex v bd show ?thesis by (simp add: compactSvg_def Let_def)
qed

lemma compactSvg_total: "\<exists>r. compactSvg (ArgString s) = Inr r"
  using compactSvg_cases[of s] by blast

lemma fixMultipleSvgViewBoxes_total: "\<exists>r. fixMultipleSvgViewBoxes (ArgString s) = Inr r"
proof -
  have "\<And>m caps. \<exists>t. fix_tag m caps = Inr t"
    by (simp add: fix_tag_eq fixSvgViewBox_total)
  from rx_replace_fn_total[of fix_tag, OF this] show ?thesis
    by (simp add: fixMultipleSvgViewBoxes_def)
qed

subsection \<open>When the loops give an estimate\<close>

text \<open>
  The first loop alone sets the lower bounds, so they leave \<open>Infinity\<close> only through a
  \<open>translate\<close> of two coordinates; the other loops raise \<open>maxX\<close> and nothing else.
\<close>

definition lo :: "jsnum \<Rightarrow> bool" where "lo a = (a = PosInf \<or> is_fin a)"
definition above :: "jsnum \<Rightarrow> bool" where "above a = (a = PosInf \<or> is_fin a)"






















subsection \<open>The claims on compactSvg\<close>

text \<open>
  Claim C6. The stripper is to leave a text element without a marker as it is, also when a
  marker stands elsewhere in the fragment. The second pattern of \<open>compactSvg\<close> starts at the
  first \<open><text\<close> and runs, across any \<open></text>\<close>, to the first marker and from there to the
  next \<open></text>\<close>. On the fragment below, with a title before the attribution, the title
  element and the opening \<open><g>\<close> are removed with the attribution, and what is left is not
  balanced. The comment in the source reads "Remove text elements containing Music engraving
  or LilyPond".
\<close>

theorem strip_attribution_unrelated_text:
  "strip_attribution ''<svg><text x=\"1\">Title</text><g><text>Music engraving by LilyPond</text></g></svg>''
     = ''<svg></g></svg>''
   \<and> compactSvg (ArgString ''<svg><text x=\"1\">Title</text><g><text>Music engraving by LilyPond</text></g></svg>'')
     = Inr ''<svg></g></svg>''
   \<and> occurs ''LilyPond'' ''<text x=\"1\">Title</text>'' = False
   \<and> occurs ''Music engraving'' ''<text x=\"1\">Title</text>'' = False"
  by code_simp




text \<open>
  Claim C8. For every string, \<open>compactSvg\<close>, \<open>fixSvgViewBox\<close> and
  \<open>fixMultipleSvgViewBoxes\<close> return a string: every group they read belongs to the match, and
  the numbers they write may be \<open>NaN\<close> but are written all the same. Each of them throws a
  \<open>TypeError\<close> on \<open>null\<close> and on \<open>undefined\<close>, whose \<open>replace\<close> or \<open>match\<close> it calls.
\<close>

theorem operations_total:
  "(\<exists>r. compactSvg (ArgString s) = Inr r)
   \<and> (\<exists>r. fixSvgViewBox (ArgString s) = Inr r)
   \<and> (\<exists>r. fixMultipleSvgViewBoxes (ArgString s) = Inr r)
   \<and> compactSvg ArgNull = Inl TypeError \<and> compactSvg ArgUndefined = Inl TypeError
   \<and> fixSvgViewBox ArgNull = Inl TypeError \<and> fixSvgViewBox ArgUndefined = Inl TypeError
   \<and> fixMultipleSvgViewBoxes ArgNull = Inl TypeError
   \<and> fixMultipleSvgViewBoxes ArgUndefined = Inl TypeError"
  using compactSvg_total[of s] fixSvgViewBox_total[of s] fixMultipleSvgViewBoxes_total[of s]
  by (simp add: compactSvg_def fixSvgViewBox_def fixMultipleSvgViewBoxes_def)

section \<open>normaliseChordData of the SVGuitar plugin\<close>

text \<open>
  The chord data is what \<open>JSON.parse\<close> returns. An object is the list of its own
  properties, each key once, in the order in which they were created; enumeration puts the
  index keys first, and nothing here reads the order.
\<close>

datatype json =
    JNull
  | JBool bool
  | JNum jsnum
  | JStr string
  | JArr "json list"
  | JObj "(string \<times> json) list"

fun truthy :: "json \<Rightarrow> bool" where
  "truthy JNull = False"
| "truthy (JBool b) = b"
| "truthy (JNum n) = (n \<noteq> NaN \<and> n \<noteq> Fin 0)"
| "truthy (JStr s) = (s \<noteq> [])"
| "truthy (JArr xs) = True"
| "truthy (JObj ps) = True"

fun create_data_property :: "(string \<times> json) list \<Rightarrow> string \<Rightarrow> json \<Rightarrow> (string \<times> json) list" where
  \<comment> \<open>a property that exists keeps its place and takes the value, a new one goes last\<close>
  "create_data_property [] k v = [(k, v)]"
| "create_data_property ((k', v') # ps) k v =
     (if k' = k then (k', v) # ps else (k', v') # create_data_property ps k v)"

definition own_props :: "json \<Rightarrow> (string \<times> json) list" where
  \<comment> \<open>the own enumerable properties that \<open>...value\<close> copies\<close>
  "own_props value =
     (case value of
        JObj ps \<Rightarrow> ps
      | JArr xs \<Rightarrow> map (\<lambda>i. (digits_of (int i), xs ! i)) [0..<length xs]
      | JStr s \<Rightarrow> map (\<lambda>i. (digits_of (int i), JStr [s ! i])) [0..<length s]
      | _ \<Rightarrow> [])"

definition spread_into :: "(string \<times> json) list \<Rightarrow> json \<Rightarrow> (string \<times> json) list" where
  "spread_into target value = foldl (\<lambda>obj (k, v). create_data_property obj k v) target (own_props value)"

definition get_prop :: "json \<Rightarrow> string \<Rightarrow> error + json option" where
  \<comment> \<open>\<open>value.k\<close>: \<open>None\<close> is \<open>undefined\<close>; no prototype of a JSON value has the keys read here\<close>
  "get_prop value k =
     (case value of
        JNull \<Rightarrow> Inl TypeError
      | JObj ps \<Rightarrow> Inr (map_of ps k)
      | _ \<Rightarrow> Inr None)"

definition normalise_chord :: "json \<Rightarrow> error + json" where
  \<comment> \<open>\<open>(chord) => ({ barres: chord.barres || [], ...chord })\<close>\<close>
  "normalise_chord chord =
     (case get_prop chord ''barres'' of
        Inl e \<Rightarrow> Inl e
      | Inr b \<Rightarrow>
          let barres = (case b of None \<Rightarrow> JArr [] | Some v \<Rightarrow> if truthy v then v else JArr [])
          in Inr (JObj (spread_into [(''barres'', barres)] chord)))"

fun normaliseChordData :: "json list \<Rightarrow> error + json list" where
  "normaliseChordData [] = Inr []"
| "normaliseChordData (chord # chordData) =
     (case normalise_chord chord of
        Inl e \<Rightarrow> Inl e
      | Inr obj \<Rightarrow>
          (case normaliseChordData chordData of
             Inl e \<Rightarrow> Inl e
           | Inr objs \<Rightarrow> Inr (obj # objs)))"

text \<open>
  Claim C10. Every element of the result is to have a \<open>barres\<close> field that is the chord's own
  value when that is truthy and the empty list otherwise. The object literal writes the
  default first and spreads the chord over it, so an own \<open>barres\<close> of the chord replaces the
  default whatever it is. A chord read from \<open>{"barres": null, "title": "C"}\<close> keeps \<open>null\<close>;
  a chord without the key gets the empty list.
\<close>

theorem normaliseChordData_null_barres:
  "normaliseChordData [JObj [(''barres'', JNull), (''title'', JStr ''C'')]]
     = Inr [JObj [(''barres'', JNull), (''title'', JStr ''C'')]]
   \<and> truthy JNull = False
   \<and> normaliseChordData [JObj [(''title'', JStr ''C'')]]
     = Inr [JObj [(''barres'', JArr []), (''title'', JStr ''C'')]]"
  by (simp add: normalise_chord_def get_prop_def spread_into_def own_props_def)

section \<open>escapeHtml\<close>

definition escapeHtml :: "string \<Rightarrow> string" where
  "escapeHtml text =
     rx_replace_all False (Lit [CHR 0x27]) ''&#039;''
       (rx_replace_all False (Lit [CHR 0x22]) ''&quot;''
         (rx_replace_all False (Lit ''>'') ''&gt;''
           (rx_replace_all False (Lit ''<'') ''&lt;''
             (rx_replace_all False (Lit ''&'') ''&amp;'' text))))"

text \<open>
  What the five passes do to one character: the entity of a markup character, any other
  character itself. The entities written by one pass hold no character that a later pass
  replaces.
\<close>

definition escape_char :: "char \<Rightarrow> string" where
  "escape_char c =
     (if c = CHR ''&'' then ''&amp;''
      else if c = CHR ''<'' then ''&lt;''
      else if c = CHR ''>'' then ''&gt;''
      else if c = CHR 0x22 then ''&quot;''
      else if c = CHR 0x27 then ''&#039;''
      else [c])"

lemma concat_map_concat_map:
  "concat (map f (concat (map g s))) = concat (map (\<lambda>x. concat (map f (g x))) s)"
  by (induction s) auto

lemma escapeHtml_chars: "escapeHtml s = concat (map escape_char s)"
proof -
  have "escapeHtml s = concat (map (\<lambda>x.
      concat (map (\<lambda>x. if x = CHR 0x27 then ''&#039;'' else [x])
       (concat (map (\<lambda>x. if x = CHR 0x22 then ''&quot;'' else [x])
        (concat (map (\<lambda>x. if x = CHR ''>'' then ''&gt;'' else [x])
         (concat (map (\<lambda>x. if x = CHR ''<'' then ''&lt;'' else [x])
          (if x = CHR ''&'' then ''&amp;'' else [x]))))))))) s)"
    by (simp add: escapeHtml_def rx_replace_all_char concat_map_concat_map)
  also have "\<dots> = concat (map escape_char s)"
    by (rule arg_cong[where f=concat], rule map_cong, rule refl) (simp add: escape_char_def)
  finally show ?thesis .
qed


definition entities :: "string list" where
  "entities = [''&amp;'', ''&lt;'', ''&gt;'', ''&quot;'', ''&#039;'']"

lemma escape_char_block:
  "escape_char c \<in> set entities \<or> (escape_char c = [c] \<and> c \<noteq> CHR ''&'')"
  by (simp add: escape_char_def entities_def)

lemma entity_amp_head:
  "e \<in> set entities \<Longrightarrow> e = CHR ''&'' # tl e \<and> CHR ''&'' \<notin> set (tl e)"
  by (auto simp: entities_def)

lemma entity_amp_first:
  assumes "e \<in> set entities" "i < length e" "e ! i = CHR ''&''"
  shows "i = 0"
proof (rule ccontr)
  assume "i \<noteq> 0"
  then obtain j where j: "i = Suc j" by (cases i) auto
  from entity_amp_head[OF assms(1)] have e: "e = CHR ''&'' # tl e" and t: "CHR ''&'' \<notin> set (tl e)"
    by auto
  from assms(2) j e have "j < length (tl e)" by (metis Suc_less_eq length_Cons)
  moreover from assms(3) j e have "tl e ! j = CHR ''&''" by (metis nth_Cons_Suc)
  ultimately show False using t by (metis nth_mem)
qed

lemma escaped_amp_entity:
  "i < length (concat (map escape_char s)) \<Longrightarrow> concat (map escape_char s) ! i = CHR ''&'' \<Longrightarrow>
   \<exists>e\<in>set entities. take (length e) (drop i (concat (map escape_char s))) = e"
proof (induction s arbitrary: i)
  case Nil
  then show ?case by simp
next
  case (Cons c s)
  let ?b = "escape_char c" and ?out = "concat (map escape_char s)"
  show ?case
  proof (cases "i < length ?b")
    case True
    with Cons.prems have amp: "?b ! i = CHR ''&''" by (simp add: nth_append)
    from escape_char_block[of c] show ?thesis
    proof
      assume ent: "?b \<in> set entities"
      from entity_amp_first[OF ent True amp] have "i = 0" .
      with ent show ?thesis by (intro bexI[of _ "escape_char c"]) simp_all
    next
      assume "?b = [c] \<and> c \<noteq> CHR ''&''"
      with True amp show ?thesis by simp
    qed
  next
    case False
    with Cons.prems have "i - length ?b < length ?out" "?out ! (i - length ?b) = CHR ''&''"
      by (auto simp: nth_append)
    from Cons.IH[OF this] False show ?thesis by simp
  qed
qed

lemma escaped_no_markup:
  "set (concat (map escape_char s)) \<inter> {CHR ''<'', CHR ''>'', CHR 0x22, CHR 0x27} = {}"
  by (induction s) (auto simp: escape_char_def split: if_splits)

text \<open>
  Claim C9. For every input string, the output of \<open>escapeHtml\<close> holds none of the characters
  \<open><\<close>, \<open>>\<close>, the double quote and the single quote, and every \<open>&\<close> of the output starts one
  of the entities \<open>&amp;\<close>, \<open>&lt;\<close>, \<open>&gt;\<close>, \<open>&quot;\<close>, \<open>&#039;\<close>. The ampersand is replaced
  first, so the output is the input with each character replaced once: an entity written for
  a later character is not escaped again.
\<close>

theorem escapeHtml_safe:
  "set (escapeHtml s) \<inter> {CHR ''<'', CHR ''>'', CHR 0x22, CHR 0x27} = {} \<and>
   (\<forall>i < length (escapeHtml s). escapeHtml s ! i = CHR ''&'' \<longrightarrow>
      (\<exists>e\<in>set entities. take (length e) (drop i (escapeHtml s)) = e)) \<and>
   escapeHtml s = concat (map escape_char s)"
  using escaped_no_markup[of s] escaped_amp_entity[of _ s] by (simp add: escapeHtml_chars)

theorem escapeHtml_safe_witness:
  "escapeHtml ''<&'' = ''&lt;&amp;'' \<and> escapeHtml ''<&'' ! 4 = CHR ''&'' \<and>
   (\<exists>e\<in>set entities. take (length e) (drop 4 (escapeHtml ''<&'')) = e)"
proof -
  have v: "escapeHtml ''<&'' = ''&lt;&amp;''"
    by (simp add: escapeHtml_chars escape_char_def)
  then have "4 < length (escapeHtml ''<&'')" and "escapeHtml ''<&'' ! 4 = CHR ''&''"
    by simp_all
  with escapeHtml_safe[of "''<&''"] v show ?thesis by blast
qed

end
